theory Spec2Isabelle
  imports Complex_Main "HOL-Library.Dlist" "HOL-Library.Char_ord" "HOL-Library.List_Lexorder"
begin

section \<open>PageRank by sampling and by iteration: a model of pagerank.py\<close>

text \<open>
  The model follows \<^verbatim>\<open>pagerank.py\<close> function by function.

  \<^item> A Python \<^verbatim>\<open>dict\<close> is an association list in insertion order; its keys are
    distinct, which theorems about an arbitrary dictionary assume.
  \<^item> A Python \<^verbatim>\<open>set\<close> is a \<open>dlist\<close>: finitely many distinct elements in some
    iteration order.
  \<^item> Python's \<^verbatim>\<open>float\<close> is the IEEE 754 binary64 format. The functions that compute
    with floats are given twice: first with exact arithmetic on \<open>real\<close>, which is the
    reference that the rounded results are measured against, and then, with names ending in
    \<open>_f64\<close>, with every operation rounded to the nearest double as the machine does it.
    What is said about the numbers that the program returns is proved of the \<open>_f64\<close>
    functions.
  \<^item> Every exception the code can raise is a value \<open>Inl e\<close> of the result.
  \<^item> The \<^verbatim>\<open>while\<close> loop of \<^verbatim>\<open>iterate_pagerank\<close> may run forever; it returns an
    \<open>option\<close>, with \<open>None\<close> for a run that never ends.
\<close>

subsection \<open>Exceptions, dictionaries, division\<close>

datatype error =
  KeyError | IndexError | ZeroDivisionError | ValueError | OSError | OverflowError

definition bind_err :: "error + 'a \<Rightarrow> ('a \<Rightarrow> error + 'b) \<Rightarrow> error + 'b" where
  "bind_err m f = (case m of Inl e \<Rightarrow> Inl e | Inr v \<Rightarrow> f v)"

type_synonym ('k, 'v) dict = "('k \<times> 'v) list"

definition keys :: "('k, 'v) dict \<Rightarrow> 'k list" where
  "keys d = map fst d"

definition dict_values :: "('k, 'v) dict \<Rightarrow> 'v list" where
  "dict_values d = map snd d"

text \<open>\<^verbatim>\<open>d[k]\<close> raises KeyError for a missing key.\<close>

definition dict_get :: "('k, 'v) dict \<Rightarrow> 'k \<Rightarrow> error + 'v" where
  "dict_get d k = (case map_of d k of None \<Rightarrow> Inl KeyError | Some v \<Rightarrow> Inr v)"

text \<open>\<^verbatim>\<open>d[k] = v\<close> overwrites in place, or appends a new key at the end.\<close>

fun dict_set :: "('k, 'v) dict \<Rightarrow> 'k \<Rightarrow> 'v \<Rightarrow> ('k, 'v) dict" where
  "dict_set [] k v = [(k, v)]"
| "dict_set ((k', v') # d) k v = (if k' = k then (k, v) # d else (k', v') # dict_set d k v)"

text \<open>\<^verbatim>\<open>a / b\<close> raises ZeroDivisionError for a zero divisor.\<close>

definition py_div :: "real \<Rightarrow> real \<Rightarrow> error + real" where
  "py_div a b = (if b = 0 then Inl ZeroDivisionError else Inr (a / b))"

text \<open>\<^verbatim>\<open>for x in xs: body\<close> over a state, stopping at the first exception.\<close>

fun for_each :: "'a list \<Rightarrow> ('a \<Rightarrow> 's \<Rightarrow> error + 's) \<Rightarrow> 's \<Rightarrow> error + 's" where
  "for_each [] body s = Inr s"
| "for_each (x # xs) body s =
     (case body x s of Inl e \<Rightarrow> Inl e | Inr s' \<Rightarrow> for_each xs body s')"

subsection \<open>The corpus graph\<close>

type_synonym 'p corpus = "('p, 'p dlist) dict"

text \<open>
  The invariant of a corpus graph that the estimators rely on, besides the distinct keys
  of every dictionary: every link points to a page of the corpus.
\<close>

definition links_closed :: "'p corpus \<Rightarrow> bool" where
  "links_closed corpus =
     (\<forall>(p, links) \<in> set corpus. \<forall>l \<in> set (list_of_dlist links). l \<in> set (keys corpus))"

subsection \<open>transition_model\<close>

definition transition_model :: "'p corpus \<Rightarrow> 'p \<Rightarrow> real \<Rightarrow> error + ('p, real) dict" where
  "transition_model corpus page damping_factor =
     bind_err (dict_get corpus page) (\<lambda>links.
       let total_pages = length corpus in
       if Dlist.null links then
         for_each (keys corpus)
           (\<lambda>p probability_distribution.
              bind_err (py_div 1 (real total_pages)) (\<lambda>v.
                Inr (dict_set probability_distribution p v)))
           []
       else
         bind_err
           (for_each (keys corpus)
              (\<lambda>p probability_distribution.
                 bind_err (py_div (1 - damping_factor) (real total_pages)) (\<lambda>v.
                   Inr (dict_set probability_distribution p v)))
              [])
           (\<lambda>probability_distribution.
              for_each (list_of_dlist links)
                (\<lambda>link probability_distribution.
                   bind_err (dict_get probability_distribution link) (\<lambda>old.
                     bind_err (py_div damping_factor (real (Dlist.length links))) (\<lambda>inc.
                       Inr (dict_set probability_distribution link (old + inc)))))
                probability_distribution))"

subsection \<open>The random module of the standard library\<close>

text \<open>
  The program draws from Python's global generator. Here the generator is a sequence
  \<open>rnd\<close> of draws, each a real number in the interval from 0 (included) to 1
  (excluded), and call number \<open>i\<close> of the program consumes \<open>rnd i\<close>.

  \<^verbatim>\<open>random.choice(seq)\<close> raises IndexError for an empty sequence and otherwise returns
  the element at a uniformly drawn index below \<^verbatim>\<open>len(seq)\<close>: for the draw \<open>u\<close>, the
  index is \<open>u * len(seq)\<close> rounded down.
\<close>

definition random_choice :: "real \<Rightarrow> 'a list \<Rightarrow> error + 'a" where
  "random_choice u seq =
     (if seq = [] then Inl IndexError
      else let i = nat \<lfloor>u * real (length seq)\<rfloor> in
        if i < length seq then Inr (seq ! i) else Inl IndexError)"

text \<open>\<^verbatim>\<open>itertools.accumulate(weights)\<close>: the running sums.\<close>

fun accumulate_from :: "real \<Rightarrow> real list \<Rightarrow> real list" where
  "accumulate_from acc [] = []"
| "accumulate_from acc (w # ws) = (acc + w) # accumulate_from (acc + w) ws"

definition accumulate :: "real list \<Rightarrow> real list" where
  "accumulate ws = accumulate_from 0 ws"

text \<open>
  \<^verbatim>\<open>bisect.bisect_right(a, x, lo, hi)\<close>:
  \<^verbatim>\<open>
  while lo < hi:
      mid = (lo + hi) // 2
      if x < a[mid]: hi = mid
      else: lo = mid + 1
  return lo
  \<close>
\<close>

function bisect :: "real list \<Rightarrow> real \<Rightarrow> nat \<Rightarrow> nat \<Rightarrow> error + nat" where
  "bisect a x lo hi =
     (if lo < hi then
        let mid = (lo + hi) div 2 in
        if mid < length a then
          if x < a ! mid then bisect a x lo mid else bisect a x (mid + 1) hi
        else Inl IndexError
      else Inr lo)"
  by pat_completeness auto
termination
  by (relation "measure (\<lambda>(a, x, lo, hi). hi - lo)") auto

declare bisect.simps [simp del]

text \<open>
  \<^verbatim>\<open>random.choices(population, weights=weights, k=1)[0]\<close>:
  \<^verbatim>\<open>
  n = len(population)
  cum_weights = list(accumulate(weights))
  if len(cum_weights) != n: raise ValueError
  total = cum_weights[-1] + 0.0
  if total <= 0.0: raise ValueError
  hi = n - 1
  return [population[bisect(cum_weights, random() * total, 0, hi)]]
  \<close>
  The library also rejects a total that is not finite, which a real number always is.
\<close>

definition random_choices :: "real \<Rightarrow> 'a list \<Rightarrow> real list \<Rightarrow> error + 'a" where
  "random_choices u population weights =
     (let n = length population; cum_weights = accumulate weights in
      if length cum_weights \<noteq> n then Inl ValueError
      else if cum_weights = [] then Inl IndexError
      else let total = last cum_weights in
        if total \<le> 0 then Inl ValueError
        else bind_err (bisect cum_weights (u * total) 0 (n - 1)) (\<lambda>i.
          if i < n then Inr (population ! i) else Inl IndexError))"

subsection \<open>sample_pagerank\<close>

text \<open>
  The loop variable of \<^verbatim>\<open>for _ in range(1, n)\<close> numbers the draws: the first page is
  chosen with draw 0 and iteration \<open>i\<close> draws \<open>rnd i\<close>.
\<close>

definition sample_pagerank ::
  "'p corpus \<Rightarrow> real \<Rightarrow> int \<Rightarrow> (nat \<Rightarrow> real) \<Rightarrow> error + ('p, real) dict" where
  "sample_pagerank corpus damping_factor n rnd =
     bind_err (for_each (keys corpus) (\<lambda>page pagerank. Inr (dict_set pagerank page (0::int))) [])
       (\<lambda>pagerank.
     bind_err (random_choice (rnd 0) (keys corpus)) (\<lambda>page.
     bind_err (dict_get pagerank page) (\<lambda>count.
     let pagerank = dict_set pagerank page (count + 1) in
     bind_err
       (for_each [1 ..< nat n]
          (\<lambda>i (page, pagerank).
             bind_err (transition_model corpus page damping_factor) (\<lambda>model.
             bind_err (random_choices (rnd i) (keys model) (dict_values model)) (\<lambda>page.
             bind_err (dict_get pagerank page) (\<lambda>count.
               Inr (page, dict_set pagerank page (count + 1))))))
          (page, pagerank))
       (\<lambda>(page, pagerank).
          for_each pagerank
            (\<lambda>(page, count) normalized.
               bind_err (py_div (real_of_int count) (real_of_int n)) (\<lambda>v.
                 Inr (dict_set normalized page v)))
            []))))"

text \<open>
  The random walk that the sampler follows, step by step as its description has it: the
  first page is chosen uniformly, and each later page is drawn from the transition model of
  the page before it. \<open>visit_count corpus d rnd n p\<close> is the number of the first \<open>n\<close> steps
  that are at page \<open>p\<close>.
\<close>

fun surfer :: "'p corpus \<Rightarrow> real \<Rightarrow> (nat \<Rightarrow> real) \<Rightarrow> nat \<Rightarrow> error + 'p" where
  "surfer corpus d rnd 0 = random_choice (rnd 0) (keys corpus)"
| "surfer corpus d rnd (Suc i) =
     bind_err (surfer corpus d rnd i) (\<lambda>page.
       bind_err (transition_model corpus page d) (\<lambda>model.
         random_choices (rnd (Suc i)) (keys model) (dict_values model)))"

definition visit_count :: "'p corpus \<Rightarrow> real \<Rightarrow> (nat \<Rightarrow> real) \<Rightarrow> nat \<Rightarrow> 'p \<Rightarrow> nat" where
  "visit_count corpus d rnd n p = length (filter (\<lambda>i. surfer corpus d rnd i = Inr p) [0 ..< n])"

subsection \<open>iterate_pagerank\<close>

text \<open>
  The innermost loop: the sum, over every page that links to \<open>page\<close> or has no links at
  all, of that page's rank divided by its number of links (by \<open>N\<close> when it has none).
\<close>

definition iterate_total ::
  "'p corpus \<Rightarrow> nat \<Rightarrow> ('p, real) dict \<Rightarrow> 'p \<Rightarrow> error + real" where
  "iterate_total corpus N pagerank page =
     for_each (keys corpus)
       (\<lambda>other_page total.
          bind_err (dict_get corpus other_page) (\<lambda>links.
            if Dlist.member links page \<or> Dlist.null links then
              bind_err (dict_get pagerank other_page) (\<lambda>rank.
                bind_err
                  (py_div rank (if \<not> Dlist.null links then real (Dlist.length links) else real N))
                  (\<lambda>share. Inr (total + share)))
            else Inr total))
       0"

text \<open>The loop over \<^verbatim>\<open>page in corpus\<close> that fills \<^verbatim>\<open>new_rank\<close> from \<^verbatim>\<open>pagerank\<close>.\<close>

definition iterate_pass ::
  "'p corpus \<Rightarrow> real \<Rightarrow> nat \<Rightarrow> ('p, real) dict \<Rightarrow> ('p, real) dict \<Rightarrow> error + ('p, real) dict" where
  "iterate_pass corpus damping_factor N pagerank new_rank =
     for_each (keys corpus)
       (\<lambda>page new_rank.
          bind_err (iterate_total corpus N pagerank page) (\<lambda>total.
            bind_err (py_div (1 - damping_factor) (real N)) (\<lambda>base.
              Inr (dict_set new_rank page (base + damping_factor * total)))))
       new_rank"

text \<open>
  The loop over \<^verbatim>\<open>page in pagerank\<close> that clears the flag \<^verbatim>\<open>converged\<close>, which the
  body of the \<^verbatim>\<open>while\<close> loop has set to True, when some rank moved by more than 0.001.
\<close>

definition iterate_converged :: "('p, real) dict \<Rightarrow> ('p, real) dict \<Rightarrow> error + bool" where
  "iterate_converged pagerank new_rank =
     for_each (keys pagerank)
       (\<lambda>page converged.
          bind_err (dict_get new_rank page) (\<lambda>new.
            bind_err (dict_get pagerank page) (\<lambda>old.
              Inr (if \<bar>new - old\<bar> > 1 / 1000 then False else converged))))
       True"

text \<open>
  The \<^verbatim>\<open>while not converged\<close> loop. The flag is False on entry, so the body runs at
  least once; \<open>None\<close> is a loop that never ends.
\<close>

partial_function (option) iterate_loop ::
  "'p corpus \<Rightarrow> real \<Rightarrow> nat \<Rightarrow> ('p, real) dict \<Rightarrow> ('p, real) dict \<Rightarrow> (error + ('p, real) dict) option"
  where
  "iterate_loop corpus damping_factor N pagerank new_rank =
     (case iterate_pass corpus damping_factor N pagerank new_rank of
        Inl e \<Rightarrow> Some (Inl e)
      | Inr new_rank \<Rightarrow>
          (case iterate_converged pagerank new_rank of
             Inl e \<Rightarrow> Some (Inl e)
           | Inr converged \<Rightarrow>
               let pagerank = new_rank in
               if converged then Some (Inr pagerank)
               else iterate_loop corpus damping_factor N pagerank new_rank))"

declare iterate_loop.simps [code]

definition iterate_pagerank ::
  "'p corpus \<Rightarrow> real \<Rightarrow> (error + ('p, real) dict) option" where
  "iterate_pagerank corpus damping_factor =
     (let N = length corpus in
      case for_each (keys corpus)
             (\<lambda>page pagerank. bind_err (py_div 1 (real N)) (\<lambda>v. Inr (dict_set pagerank page v)))
             [] of
        Inl e \<Rightarrow> Some (Inl e)
      | Inr pagerank \<Rightarrow>
          (case for_each (keys corpus) (\<lambda>page new_rank. Inr (dict_set new_rank page 0)) [] of
             Inl e \<Rightarrow> Some (Inl e)
           | Inr new_rank \<Rightarrow> iterate_loop corpus damping_factor N pagerank new_rank))"

subsection \<open>The relaxation step as a function on ranks\<close>

text \<open>
  The properties of \<open>iterate_pagerank\<close> are stated with the formula that one pass of its
  loop computes. A rank assignment is a function from pages to numbers, and
  \<open>rank_dict corpus r\<close> is the dictionary that stores it under the pages of the corpus.
  \<open>weight N p links\<close> is the share of its rank that a page with the link set \<open>links\<close>
  passes to \<open>p\<close>; \<open>relax\<close> is the pass; \<open>l1_dist\<close> is the distance between two
  rank assignments, summed over the pages of the corpus.
\<close>

definition rank_dict :: "'p corpus \<Rightarrow> ('p \<Rightarrow> real) \<Rightarrow> ('p, real) dict" where
  "rank_dict corpus r = map (\<lambda>p. (p, r p)) (keys corpus)"

definition weight :: "nat \<Rightarrow> 'p \<Rightarrow> 'p dlist \<Rightarrow> real" where
  "weight N p links =
     (if Dlist.member links p \<or> Dlist.null links
      then 1 / (if \<not> Dlist.null links then real (Dlist.length links) else real N)
      else 0)"

definition relax :: "'p corpus \<Rightarrow> real \<Rightarrow> ('p \<Rightarrow> real) \<Rightarrow> 'p \<Rightarrow> real" where
  "relax corpus d r p =
     (1 - d) / real (length corpus)
       + d * (\<Sum>(q, links) \<leftarrow> corpus. r q * weight (length corpus) p links)"


text \<open>The test that ends the loop: no page's rank moved by more than 0.001.\<close>

definition settled :: "'p corpus \<Rightarrow> ('p \<Rightarrow> real) \<Rightarrow> ('p \<Rightarrow> real) \<Rightarrow> bool" where
  "settled corpus r r' = (\<forall>p \<in> set (keys corpus). \<not> \<bar>r' p - r p\<bar> > 1 / 1000)"

subsection \<open>crawl\<close>

text \<open>
  The file system as the program sees it: \<^verbatim>\<open>os.listdir\<close> gives the names in a
  directory, \<^verbatim>\<open>open(path).read()\<close> the contents of a file, and either may raise.
\<close>

record filesystem =
  listdir :: "string \<Rightarrow> error + string list"
  read_file :: "string \<Rightarrow> error + string"

text \<open>\<^verbatim>\<open>os.path.join(a, b)\<close> on a POSIX system.\<close>

definition path_join :: "string \<Rightarrow> string \<Rightarrow> string" where
  "path_join a b =
     (if take 1 b = ''/'' then b
      else if a = [] \<or> last a = CHR ''/'' then a @ b
      else a @ ''/'' @ b)"

definition endswith :: "string \<Rightarrow> string \<Rightarrow> bool" where
  "endswith s suffix =
     (length suffix \<le> length s \<and> drop (length s - length suffix) s = suffix)"

text \<open>
  The regular expression search \<^verbatim>\<open>re.findall(r"<a\s+(?:[^>]*?)href=\"([^\"]*)\"", contents)\<close>
  is the parameter \<open>findall\<close>, the function from the contents of a file to the list of the
  link targets found in it: nothing below depends on which targets it finds.
\<close>

definition crawl ::
  "filesystem \<Rightarrow> (string \<Rightarrow> string list) \<Rightarrow> string \<Rightarrow> error + string corpus" where
  "crawl fs findall directory =
     bind_err (listdir fs directory) (\<lambda>filenames.
     bind_err
       (for_each filenames
          (\<lambda>filename pages.
             if \<not> endswith filename ''.html'' then Inr pages
             else
               bind_err (read_file fs (path_join directory filename)) (\<lambda>contents.
                 let links = findall contents in
                 Inr (dict_set pages filename (Dlist.remove filename (dlist_of_list links)))))
          [])
       (\<lambda>pages.
          for_each (keys pages)
            (\<lambda>filename pages.
               bind_err (dict_get pages filename) (\<lambda>links.
                 Inr (dict_set pages filename
                        (Dlist.filter (\<lambda>link. link \<in> set (keys pages)) links))))
            pages))"

subsection \<open>main\<close>

definition DAMPING :: real where
  "DAMPING = 85 / 100"

definition SAMPLES :: int where
  "SAMPLES = 10000"

text \<open>
  What a run of the program leaves behind: the lines printed on standard output, and how
  the process ended. A rank is printed with four decimals; the model keeps the number.
\<close>

datatype out_line = Sampling_header int | Iteration_header | Rank_line string real

datatype ending = Finished | SystemExit string | Uncaught error

record outcome =
  stdout :: "out_line list"
  ending :: ending

text \<open>
  \<^verbatim>\<open>sys.exit(message)\<close> with a string prints the message on standard error and ends the
  process with status 1, as an uncaught exception does after its traceback.
\<close>

fun exit_status :: "ending \<Rightarrow> nat" where
  "exit_status Finished = 0"
| "exit_status (SystemExit message) = 1"
| "exit_status (Uncaught e) = 1"

fun stderr_message :: "ending \<Rightarrow> string option" where
  "stderr_message (SystemExit message) = Some message"
| "stderr_message _ = None"

text \<open>
  \<^verbatim>\<open>for page in sorted(ranks): print(...)\<close> over the sorted keys, appending to the lines
  printed so far; an exception keeps the lines printed before it.
\<close>

fun print_ranks ::
  "(string, real) dict \<Rightarrow> string list \<Rightarrow> out_line list \<Rightarrow> out_line list \<times> error option" where
  "print_ranks ranks [] out = (out, None)"
| "print_ranks ranks (page # pages) out =
     (case dict_get ranks page of
        Inl e \<Rightarrow> (out, Some e)
      | Inr rank \<Rightarrow> print_ranks ranks pages (out @ [Rank_line page rank]))"

definition main ::
  "string list \<Rightarrow> filesystem \<Rightarrow> (string \<Rightarrow> string list) \<Rightarrow> (nat \<Rightarrow> real) \<Rightarrow> outcome option"
  where
  "main argv fs findall rnd =
     (if length argv \<noteq> 2 then
        Some \<lparr>stdout = [], ending = SystemExit ''Usage: python pagerank.py corpus''\<rparr>
      else
        case crawl fs findall (argv ! 1) of
          Inl e \<Rightarrow> Some \<lparr>stdout = [], ending = Uncaught e\<rparr>
        | Inr corpus \<Rightarrow>
            (case sample_pagerank corpus DAMPING SAMPLES rnd of
               Inl e \<Rightarrow> Some \<lparr>stdout = [], ending = Uncaught e\<rparr>
             | Inr ranks \<Rightarrow>
                 (case print_ranks ranks (sort (keys ranks)) [Sampling_header SAMPLES] of
                    (out, Some e) \<Rightarrow> Some \<lparr>stdout = out, ending = Uncaught e\<rparr>
                  | (out, None) \<Rightarrow>
                      (case iterate_pagerank corpus DAMPING of
                         None \<Rightarrow> None
                       | Some (Inl e) \<Rightarrow> Some \<lparr>stdout = out, ending = Uncaught e\<rparr>
                       | Some (Inr ranks) \<Rightarrow>
                           (case print_ranks ranks (sort (keys ranks)) (out @ [Iteration_header]) of
                              (out, Some e) \<Rightarrow> Some \<lparr>stdout = out, ending = Uncaught e\<rparr>
                            | (out, None) \<Rightarrow> Some \<lparr>stdout = out, ending = Finished\<rparr>)))))"

section \<open>The program in double precision\<close>

text \<open>
  The definitions above compute with exact real numbers; the program computes with
  Python's \<^verbatim>\<open>float\<close>, the IEEE 754 binary64 format. This section repeats the three
  functions that compute with floats, operation by operation, with every result rounded as
  the machine rounds it. The names end in \<open>_f64\<close>.
\<close>

subsection \<open>Binary64 values and rounding\<close>

text \<open>
  A double is a finite number, an infinity or NaN. The two zeros of the format are one
  value here: the program never looks at the sign of a zero (it compares, adds, multiplies
  and takes absolute values, and Python's division raises for either zero).
\<close>

datatype double = Finite real | PlusInf | MinusInf | NaN

text \<open>Rounding to the nearest integer, a tie to the even one.\<close>

definition rne :: "real \<Rightarrow> int" where
  "rne x =
     (let f = \<lfloor>x\<rfloor>; r = x - of_int f in
      if r < 1 / 2 then f else if r > 1 / 2 then f + 1 else if even f then f else f + 1)"

text \<open>
  The binary exponent of a positive number \<open>a\<close>: the \<open>e\<close> with \<open>2\<^sup>e \<le> a < 2\<^sup>e\<^sup>+\<^sup>1\<close>, found by
  halving or doubling, but no less than -1022 (below that the format is subnormal, with
  the spacing of exponent -1022) and no more than 1024 (which is already an overflow).
\<close>

function expo_up :: "int \<Rightarrow> real \<Rightarrow> int" where
  "expo_up e x = (if x < 2 \<or> 1024 \<le> e then e else expo_up (e + 1) (x / 2))"
  by pat_completeness auto
termination
  by (relation "measure (\<lambda>(e, x). nat (1024 - e))") auto

function expo_down :: "int \<Rightarrow> real \<Rightarrow> int" where
  "expo_down e x = (if 1 \<le> x \<or> e \<le> - 1022 then e else expo_down (e - 1) (2 * x))"
  by pat_completeness auto
termination
  by (relation "measure (\<lambda>(e, x). nat (e + 1022))") auto

declare expo_up.simps [simp del] expo_down.simps [simp del]

definition exponent :: "real \<Rightarrow> int" where
  "exponent a = (if 1 \<le> a then expo_up 0 a else expo_down 0 a)"

text \<open>
  Round to nearest, ties to even, with 53 significant bits: the doubles around \<open>a\<close> are the
  multiples of \<open>2\<^sup>e\<^sup>-\<^sup>5\<^sup>2\<close>. A result of magnitude \<open>2\<^sup>1\<^sup>0\<^sup>2\<^sup>4\<close> or more is an infinity.
\<close>

definition round_to_double :: "real \<Rightarrow> double" where
  "round_to_double x =
     (if x = 0 then Finite 0
      else
        let a = \<bar>x\<bar>;
            q = 2 powi (exponent a - 52);
            y = of_int (rne (a / q)) * q
        in if 2 ^ 1024 \<le> y then (if 0 < x then PlusInf else MinusInf)
           else Finite (if 0 < x then y else - y))"

subsection \<open>Arithmetic on doubles\<close>

fun dneg :: "double \<Rightarrow> double" where
  "dneg (Finite a) = Finite (- a)"
| "dneg PlusInf = MinusInf"
| "dneg MinusInf = PlusInf"
| "dneg NaN = NaN"

fun dadd :: "double \<Rightarrow> double \<Rightarrow> double" where
  "dadd (Finite a) (Finite b) = round_to_double (a + b)"
| "dadd NaN y = NaN"
| "dadd x NaN = NaN"
| "dadd PlusInf MinusInf = NaN"
| "dadd MinusInf PlusInf = NaN"
| "dadd PlusInf y = PlusInf"
| "dadd MinusInf y = MinusInf"
| "dadd (Finite a) y = y"

definition dsub :: "double \<Rightarrow> double \<Rightarrow> double" where
  "dsub x y = dadd x (dneg y)"

text \<open>The sign of a double: -1, 0 or 1; NaN has none and is treated before it is asked.\<close>

fun dsign :: "double \<Rightarrow> int" where
  "dsign (Finite a) = (if a < 0 then - 1 else if a = 0 then 0 else 1)"
| "dsign PlusInf = 1"
| "dsign MinusInf = - 1"
| "dsign NaN = 0"

fun dmul :: "double \<Rightarrow> double \<Rightarrow> double" where
  "dmul (Finite a) (Finite b) = round_to_double (a * b)"
| "dmul NaN y = NaN"
| "dmul x NaN = NaN"
| "dmul x y =
     (if dsign x * dsign y = 0 then NaN else if dsign x * dsign y < 0 then MinusInf else PlusInf)"

text \<open>
  \<^verbatim>\<open>x / y\<close> on floats: Python raises ZeroDivisionError for a zero divisor, whatever the
  dividend; otherwise the quotient is the IEEE one.
\<close>

fun ddiv :: "double \<Rightarrow> double \<Rightarrow> error + double" where
  "ddiv x (Finite b) =
     (if b = 0 then Inl ZeroDivisionError
      else case x of
        Finite a \<Rightarrow> Inr (round_to_double (a / b))
      | NaN \<Rightarrow> Inr NaN
      | _ \<Rightarrow> Inr (if dsign x * dsign (Finite b) < 0 then MinusInf else PlusInf))"
| "ddiv x NaN = Inr NaN"
| "ddiv (Finite a) y = Inr (Finite 0)"
| "ddiv x y = Inr NaN"

fun dabs :: "double \<Rightarrow> double" where
  "dabs (Finite a) = Finite \<bar>a\<bar>"
| "dabs NaN = NaN"
| "dabs x = PlusInf"

text \<open>\<^verbatim>\<open>x < y\<close> on floats; a comparison with NaN is False.\<close>

fun dless :: "double \<Rightarrow> double \<Rightarrow> bool" where
  "dless (Finite a) (Finite b) = (a < b)"
| "dless NaN y = False"
| "dless x NaN = False"
| "dless MinusInf y = (y \<noteq> MinusInf)"
| "dless x PlusInf = (x \<noteq> PlusInf)"
| "dless x y = False"

text \<open>\<^verbatim>\<open>x <= y\<close> on floats.\<close>

definition dle :: "double \<Rightarrow> double \<Rightarrow> bool" where
  "dle x y = (x \<noteq> NaN \<and> y \<noteq> NaN \<and> (dless x y \<or> x = y))"

fun isfinite :: "double \<Rightarrow> bool" where
  "isfinite (Finite a) = True"
| "isfinite x = False"

text \<open>
  An \<^verbatim>\<open>int\<close> operand of a float operation is converted first: exactly up to \<open>2\<^sup>5\<^sup>3\<close>, rounded
  above it, and with OverflowError when it is too large for a double.
\<close>

definition float_of_int :: "int \<Rightarrow> error + double" where
  "float_of_int n =
     (if \<bar>n\<bar> \<le> 2 ^ 53 then Inr (Finite (of_int n))
      else case round_to_double (of_int n) of
        Finite y \<Rightarrow> Inr (Finite y)
      | _ \<Rightarrow> Inl OverflowError)"

text \<open>\<^verbatim>\<open>x / n\<close> for a float \<open>x\<close> and an int \<open>n\<close>.\<close>

definition float_div_int :: "double \<Rightarrow> int \<Rightarrow> error + double" where
  "float_div_int x n = bind_err (float_of_int n) (\<lambda>y. ddiv x y)"

text \<open>
  \<^verbatim>\<open>a / b\<close> for two ints: ZeroDivisionError for \<open>b = 0\<close>, otherwise the double nearest to
  the exact quotient, and OverflowError when that is no finite double.
\<close>

definition int_truediv :: "int \<Rightarrow> int \<Rightarrow> error + double" where
  "int_truediv a b =
     (if b = 0 then Inl ZeroDivisionError
      else case round_to_double (of_int a / of_int b) of
        Finite y \<Rightarrow> Inr (Finite y)
      | _ \<Rightarrow> Inl OverflowError)"

subsection \<open>transition_model in double precision\<close>

definition transition_model_f64 ::
  "'p corpus \<Rightarrow> 'p \<Rightarrow> double \<Rightarrow> error + ('p, double) dict" where
  "transition_model_f64 corpus page damping_factor =
     bind_err (dict_get corpus page) (\<lambda>links.
       let total_pages = int (length corpus) in
       if Dlist.null links then
         for_each (keys corpus)
           (\<lambda>p probability_distribution.
              bind_err (int_truediv 1 total_pages) (\<lambda>v.
                Inr (dict_set probability_distribution p v)))
           []
       else
         bind_err
           (for_each (keys corpus)
              (\<lambda>p probability_distribution.
                 bind_err (float_div_int (dsub (Finite 1) damping_factor) total_pages) (\<lambda>v.
                   Inr (dict_set probability_distribution p v)))
              [])
           (\<lambda>probability_distribution.
              for_each (list_of_dlist links)
                (\<lambda>link probability_distribution.
                   bind_err (dict_get probability_distribution link) (\<lambda>old.
                     bind_err (float_div_int damping_factor (int (Dlist.length links))) (\<lambda>inc.
                       Inr (dict_set probability_distribution link (dadd old inc)))))
                probability_distribution))"

subsection \<open>The random module in double precision\<close>

text \<open>
  \<^verbatim>\<open>itertools.accumulate(weights)\<close> starts from the first weight and adds the others in
  double precision.
\<close>

fun accumulate_from_f64 :: "double \<Rightarrow> double list \<Rightarrow> double list" where
  "accumulate_from_f64 acc [] = []"
| "accumulate_from_f64 acc (w # ws) = dadd acc w # accumulate_from_f64 (dadd acc w) ws"

fun accumulate_f64 :: "double list \<Rightarrow> double list" where
  "accumulate_f64 [] = []"
| "accumulate_f64 (w # ws) = w # accumulate_from_f64 w ws"

function bisect_f64 :: "double list \<Rightarrow> double \<Rightarrow> nat \<Rightarrow> nat \<Rightarrow> error + nat" where
  "bisect_f64 a x lo hi =
     (if lo < hi then
        let mid = (lo + hi) div 2 in
        if mid < length a then
          if dless x (a ! mid) then bisect_f64 a x lo mid else bisect_f64 a x (mid + 1) hi
        else Inl IndexError
      else Inr lo)"
  by pat_completeness auto
termination
  by (relation "measure (\<lambda>(a, x, lo, hi). hi - lo)") auto

declare bisect_f64.simps [simp del]

text \<open>
  \<^verbatim>\<open>random.choices(population, weights=weights, k=1)[0]\<close> as above, now with the test that
  the total is finite; \<open>u\<close> is the value of \<^verbatim>\<open>random()\<close>.
\<close>

definition random_choices_f64 :: "real \<Rightarrow> 'a list \<Rightarrow> double list \<Rightarrow> error + 'a" where
  "random_choices_f64 u population weights =
     (let n = length population; cum_weights = accumulate_f64 weights in
      if length cum_weights \<noteq> n then Inl ValueError
      else if cum_weights = [] then Inl IndexError
      else let total = dadd (last cum_weights) (Finite 0) in
        if dle total (Finite 0) then Inl ValueError
        else if \<not> isfinite total then Inl ValueError
        else bind_err (bisect_f64 cum_weights (dmul (Finite u) total) 0 (n - 1)) (\<lambda>i.
          if i < n then Inr (population ! i) else Inl IndexError))"

subsection \<open>sample_pagerank in double precision\<close>

definition sample_pagerank_f64 ::
  "'p corpus \<Rightarrow> double \<Rightarrow> int \<Rightarrow> (nat \<Rightarrow> real) \<Rightarrow> error + ('p, double) dict" where
  "sample_pagerank_f64 corpus damping_factor n rnd =
     bind_err (for_each (keys corpus) (\<lambda>page pagerank. Inr (dict_set pagerank page (0::int))) [])
       (\<lambda>pagerank.
     bind_err (random_choice (rnd 0) (keys corpus)) (\<lambda>page.
     bind_err (dict_get pagerank page) (\<lambda>count.
     let pagerank = dict_set pagerank page (count + 1) in
     bind_err
       (for_each [1 ..< nat n]
          (\<lambda>i (page, pagerank).
             bind_err (transition_model_f64 corpus page damping_factor) (\<lambda>model.
             bind_err (random_choices_f64 (rnd i) (keys model) (dict_values model)) (\<lambda>page.
             bind_err (dict_get pagerank page) (\<lambda>count.
               Inr (page, dict_set pagerank page (count + 1))))))
          (page, pagerank))
       (\<lambda>(page, pagerank).
          for_each pagerank
            (\<lambda>(page, count) normalized.
               bind_err (int_truediv count n) (\<lambda>v.
                 Inr (dict_set normalized page v)))
            []))))"

text \<open>The walk of the sampler and its visit counts, with the double precision model.\<close>

fun surfer_f64 :: "'p corpus \<Rightarrow> double \<Rightarrow> (nat \<Rightarrow> real) \<Rightarrow> nat \<Rightarrow> error + 'p" where
  "surfer_f64 corpus d rnd 0 = random_choice (rnd 0) (keys corpus)"
| "surfer_f64 corpus d rnd (Suc i) =
     bind_err (surfer_f64 corpus d rnd i) (\<lambda>page.
       bind_err (transition_model_f64 corpus page d) (\<lambda>model.
         random_choices_f64 (rnd (Suc i)) (keys model) (dict_values model)))"

definition visit_count_f64 ::
  "'p corpus \<Rightarrow> double \<Rightarrow> (nat \<Rightarrow> real) \<Rightarrow> nat \<Rightarrow> 'p \<Rightarrow> nat" where
  "visit_count_f64 corpus d rnd n p =
     length (filter (\<lambda>i. surfer_f64 corpus d rnd i = Inr p) [0 ..< n])"

subsection \<open>iterate_pagerank in double precision\<close>

definition iterate_total_f64 ::
  "'p corpus \<Rightarrow> nat \<Rightarrow> ('p, double) dict \<Rightarrow> 'p \<Rightarrow> error + double" where
  "iterate_total_f64 corpus N pagerank page =
     for_each (keys corpus)
       (\<lambda>other_page total.
          bind_err (dict_get corpus other_page) (\<lambda>links.
            if Dlist.member links page \<or> Dlist.null links then
              bind_err (dict_get pagerank other_page) (\<lambda>rank.
                bind_err
                  (float_div_int rank
                     (if \<not> Dlist.null links then int (Dlist.length links) else int N))
                  (\<lambda>share. Inr (dadd total share)))
            else Inr total))
       (Finite 0)"

definition iterate_pass_f64 ::
  "'p corpus \<Rightarrow> double \<Rightarrow> nat \<Rightarrow> ('p, double) dict \<Rightarrow> ('p, double) dict \<Rightarrow>
     error + ('p, double) dict" where
  "iterate_pass_f64 corpus damping_factor N pagerank new_rank =
     for_each (keys corpus)
       (\<lambda>page new_rank.
          bind_err (iterate_total_f64 corpus N pagerank page) (\<lambda>total.
            bind_err (float_div_int (dsub (Finite 1) damping_factor) (int N)) (\<lambda>base.
              Inr (dict_set new_rank page (dadd base (dmul damping_factor total))))))
       new_rank"

text \<open>The literal \<^verbatim>\<open>0.001\<close> is the double nearest to 1/1000.\<close>

definition iterate_converged_f64 ::
  "('p, double) dict \<Rightarrow> ('p, double) dict \<Rightarrow> error + bool" where
  "iterate_converged_f64 pagerank new_rank =
     for_each (keys pagerank)
       (\<lambda>page converged.
          bind_err (dict_get new_rank page) (\<lambda>new.
            bind_err (dict_get pagerank page) (\<lambda>old.
              Inr (if dless (round_to_double (1 / 1000)) (dabs (dsub new old))
                   then False else converged))))
       True"

partial_function (option) iterate_loop_f64 ::
  "'p corpus \<Rightarrow> double \<Rightarrow> nat \<Rightarrow> ('p, double) dict \<Rightarrow> ('p, double) dict \<Rightarrow>
     (error + ('p, double) dict) option"
  where
  "iterate_loop_f64 corpus damping_factor N pagerank new_rank =
     (case iterate_pass_f64 corpus damping_factor N pagerank new_rank of
        Inl e \<Rightarrow> Some (Inl e)
      | Inr new_rank \<Rightarrow>
          (case iterate_converged_f64 pagerank new_rank of
             Inl e \<Rightarrow> Some (Inl e)
           | Inr converged \<Rightarrow>
               let pagerank = new_rank in
               if converged then Some (Inr pagerank)
               else iterate_loop_f64 corpus damping_factor N pagerank new_rank))"

declare iterate_loop_f64.simps [code]

definition iterate_pagerank_f64 ::
  "'p corpus \<Rightarrow> double \<Rightarrow> (error + ('p, double) dict) option" where
  "iterate_pagerank_f64 corpus damping_factor =
     (let N = length corpus in
      case for_each (keys corpus)
             (\<lambda>page pagerank. bind_err (int_truediv 1 (int N)) (\<lambda>v. Inr (dict_set pagerank page v)))
             [] of
        Inl e \<Rightarrow> Some (Inl e)
      | Inr pagerank \<Rightarrow>
          (case for_each (keys corpus) (\<lambda>page new_rank. Inr (dict_set new_rank page (Finite 0))) [] of
             Inl e \<Rightarrow> Some (Inl e)
           | Inr new_rank \<Rightarrow> iterate_loop_f64 corpus damping_factor N pagerank new_rank))"

subsection \<open>The double precision pass as a function on ranks\<close>

text \<open>
  The properties of the double precision functions are stated with the numbers they hold:
  \<open>value_of\<close> is the number in a finite double, \<open>fl x\<close> the number that \<open>x\<close> rounds to, and
  \<open>rank_dict_f64 corpus r\<close> the dictionary of the doubles \<open>r p\<close>. \<open>fsum s ts\<close> adds the
  numbers \<open>ts\<close> to \<open>s\<close> one by one, rounding each sum; \<open>shares\<close> lists the rounded shares
  that the pages pass to \<open>p\<close>, in the order of the corpus; \<open>relax_f64\<close> is what one pass of
  the loop stores for \<open>p\<close>, and \<open>settled_f64\<close> is the test that ends the loop.
\<close>

fun value_of :: "double \<Rightarrow> real" where
  "value_of (Finite a) = a"
| "value_of x = 0"

definition fl :: "real \<Rightarrow> real" where
  "fl x = value_of (round_to_double x)"

definition rank_dict_f64 :: "'p corpus \<Rightarrow> ('p \<Rightarrow> real) \<Rightarrow> ('p, double) dict" where
  "rank_dict_f64 corpus r = map (\<lambda>p. (p, Finite (r p))) (keys corpus)"

fun fsum :: "real \<Rightarrow> real list \<Rightarrow> real" where
  "fsum s [] = s"
| "fsum s (t # ts) = fsum (fl (s + t)) ts"

definition shares :: "'p corpus \<Rightarrow> ('p \<Rightarrow> real) \<Rightarrow> 'p \<Rightarrow> real list" where
  "shares corpus r p =
     map (\<lambda>(q, links).
            fl (r q / (if \<not> Dlist.null links then real (Dlist.length links)
                       else real (length corpus))))
       (filter (\<lambda>(q, links). Dlist.member links p \<or> Dlist.null links) corpus)"

definition relax_f64 :: "'p corpus \<Rightarrow> real \<Rightarrow> ('p \<Rightarrow> real) \<Rightarrow> 'p \<Rightarrow> real" where
  "relax_f64 corpus d r p =
     fl (fl (fl (1 - d) / real (length corpus)) + fl (d * fsum 0 (shares corpus r p)))"

definition settled_f64 :: "'p corpus \<Rightarrow> ('p \<Rightarrow> real) \<Rightarrow> ('p \<Rightarrow> real) \<Rightarrow> bool" where
  "settled_f64 corpus r r' =
     (\<forall>p \<in> set (keys corpus). \<not> fl (1 / 1000) < \<bar>fl (r' p - r p)\<bar>)"

section \<open>Properties\<close>

subsection \<open>Dictionaries and loops\<close>

lemma bind_err_Inr [simp]: "bind_err (Inr v) f = f v"
  and bind_err_Inl [simp]: "bind_err (Inl e) f = Inl e"
  by (simp_all add: bind_err_def)

lemma keys_dict_set:
  "keys (dict_set d k v) = (if k \<in> set (keys d) then keys d else keys d @ [k])"
  by (induction d) (force simp: keys_def)+

lemma dict_set_fresh: "k \<notin> set (keys d) \<Longrightarrow> dict_set d k v = d @ [(k, v)]"
  by (induction d) (auto simp: keys_def)

lemma dict_set_present:
  "distinct (keys d) \<Longrightarrow> k \<in> set (keys d) \<Longrightarrow>
   dict_set d k v = map (\<lambda>(p, w). (p, if p = k then v else w)) d"
proof (induction d)
  case Nil
  then show ?case by (simp add: keys_def)
next
  case (Cons a d)
  obtain k' v' where a: "a = (k', v')" by (cases a)
  show ?case
  proof (cases "k' = k")
    case True
    with Cons.prems a have "k \<notin> fst ` set d" by (simp add: keys_def)
    then have "map (\<lambda>(p, w). (p, if p = k then v else w)) d = d"
      by (intro map_idI) force
    with True a show ?thesis by simp
  next
    case False
    with Cons a show ?thesis by (simp add: keys_def)
  qed
qed

lemma dict_get_present:
  "distinct (keys d) \<Longrightarrow> (k, v) \<in> set d \<Longrightarrow> dict_get d k = Inr v"
  by (simp add: dict_get_def keys_def)

lemma dict_get_absent: "k \<notin> set (keys d) \<Longrightarrow> dict_get d k = Inl KeyError"
proof -
  assume "k \<notin> set (keys d)"
  then have "map_of d k = None" by (simp add: keys_def map_of_eq_None_iff)
  then show ?thesis by (simp add: dict_get_def)
qed

lemma dict_get_Inr_iff:
  "distinct (keys d) \<Longrightarrow> dict_get d k = Inr v \<longleftrightarrow> (k, v) \<in> set d"
proof -
  assume "distinct (keys d)"
  then have "map_of d k = Some v \<longleftrightarrow> (k, v) \<in> set d"
    by (simp add: keys_def)
  then show ?thesis by (cases "map_of d k") (auto simp: dict_get_def)
qed

text \<open>A loop that stores a fixed value under each fresh key builds the dictionary in order.\<close>

lemma for_each_fill:
  "distinct ks \<Longrightarrow> set ks \<inter> set (keys acc) = {} \<Longrightarrow>
   for_each ks (\<lambda>p pd. Inr (dict_set pd p c)) acc = Inr (acc @ map (\<lambda>p. (p, c)) ks)"
proof (induction ks arbitrary: acc)
  case Nil
  then show ?case by simp
next
  case (Cons k ks)
  have fresh: "k \<notin> set (keys acc)" using Cons.prems by auto
  have "set ks \<inter> set (keys (acc @ [(k, c)])) = {}"
    using Cons.prems by (auto simp: keys_def)
  with Cons show ?case by (simp add: dict_set_fresh [OF fresh])
qed

lemma for_each_bump:
  "distinct (keys pd) \<Longrightarrow> distinct ls \<Longrightarrow> set ls \<subseteq> set (keys pd) \<Longrightarrow>
   for_each ls (\<lambda>link pd. bind_err (dict_get pd link) (\<lambda>old. Inr (dict_set pd link (old + inc)))) pd
     = Inr (map (\<lambda>(p, w). (p, if p \<in> set ls then w + inc else w)) pd)"
proof (induction ls arbitrary: pd)
  case Nil
  then show ?case by simp
next
  case (Cons l ls)
  from Cons.prems obtain w where w: "(l, w) \<in> set pd" by (auto simp: keys_def)
  let ?pd = "map (\<lambda>(p, w). (p, if p = l then w + inc else w)) pd"
  have get: "dict_get pd l = Inr w" using Cons.prems w by (simp add: dict_get_present)
  have "dict_set pd l (w + inc) = map (\<lambda>(p, w'). (p, if p = l then w + inc else w')) pd"
    using Cons.prems by (simp add: dict_set_present)
  also have "\<dots> = ?pd"
    using Cons.prems(1) w by (auto simp: keys_def dest: eq_key_imp_eq_value)
  finally have set: "dict_set pd l (w + inc) = ?pd" .
  have k: "keys ?pd = keys pd" by (auto simp: keys_def)
  have "for_each ls (\<lambda>link pd. bind_err (dict_get pd link) (\<lambda>old. Inr (dict_set pd link (old + inc)))) ?pd
     = Inr (map (\<lambda>(p, w). (p, if p \<in> set ls then w + inc else w)) ?pd)"
    using Cons.prems by (intro Cons.IH) (auto simp: k)
  moreover have "map (\<lambda>(p, w). (p, if p \<in> set ls then w + inc else w)) ?pd
     = map (\<lambda>(p, w). (p, if p \<in> set (l # ls) then w + inc else w)) pd"
    using Cons.prems(2) by auto
  ultimately show ?case by (simp add: get set)
qed


lemma sum_list_base_bonus:
  fixes a c :: real
  shows "sum_list (map (\<lambda>p. a + (if P p then c else 0)) ks)
           = a * real (length ks) + c * real (length (filter P ks))"
  by (induction ks) (simp_all add: algebra_simps)

lemma length_filter_member:
  assumes "distinct ks" "distinct ls" "set ls \<subseteq> set ks"
  shows "length (filter (\<lambda>p. p \<in> set ls) ks) = length ls"
proof -
  have "length (filter (\<lambda>p. p \<in> set ls) ks) = card ({p. p \<in> set ls} \<inter> set ks)"
    using assms(1) by (rule distinct_length_filter)
  also have "{p. p \<in> set ls} \<inter> set ks = set ls" using assms(3) by auto
  also have "card (set ls) = length ls" using assms(2) by (simp add: distinct_card)
  finally show ?thesis .
qed

lemma dlist_null_iff: "Dlist.null ls \<longleftrightarrow> list_of_dlist ls = []"
  by (simp add: Dlist.null_def)

lemma dlist_member_iff: "Dlist.member ls p \<longleftrightarrow> p \<in> set (list_of_dlist ls)"
  by (simp add: Dlist.member_def)

lemma dlist_length_eq: "Dlist.length ls = length (list_of_dlist ls)"
  by (simp add: Dlist.length_def)

text \<open>What \<open>transition_model\<close> returns for a page of the corpus whose links are pages of the corpus.\<close>

lemma transition_model_value:
  assumes dist: "distinct (keys corpus)"
    and page: "dict_get corpus page = Inr links"
    and closed: "set (list_of_dlist links) \<subseteq> set (keys corpus)"
  shows "transition_model corpus page d =
           Inr (map (\<lambda>p. (p, if Dlist.null links then 1 / real (length corpus)
                            else (1 - d) / real (length corpus)
                               + (if Dlist.member links p then d / real (Dlist.length links) else 0)))
                  (keys corpus))"
proof -
  let ?N = "real (length corpus)"
  from page dist have "(page, links) \<in> set corpus" by (simp add: dict_get_Inr_iff)
  then have N: "?N \<noteq> 0" by auto
  have fill: "for_each (keys corpus) (\<lambda>p pd. bind_err (py_div a ?N) (\<lambda>v. Inr (dict_set pd p v))) []
                = Inr (map (\<lambda>p. (p, a / ?N)) (keys corpus))" for a
    using for_each_fill [OF dist, of "[]" "a / ?N"] N
    by (simp add: py_div_def keys_def)
  show ?thesis
  proof (cases "Dlist.null links")
    case True
    then show ?thesis by (simp add: transition_model_def page fill)
  next
    case False
    then have len: "real (Dlist.length links) \<noteq> 0"
      by (simp add: dlist_null_iff dlist_length_eq)
    let ?base = "map (\<lambda>p. (p, (1 - d) / ?N)) (keys corpus)"
    let ?inc = "d / real (Dlist.length links)"
    have kb: "keys ?base = keys corpus" by (simp add: keys_def comp_def)
    have "for_each (list_of_dlist links)
            (\<lambda>link pd. bind_err (dict_get pd link) (\<lambda>old.
               bind_err (py_div d (real (Dlist.length links))) (\<lambda>inc. Inr (dict_set pd link (old + inc)))))
            ?base
          = for_each (list_of_dlist links)
            (\<lambda>link pd. bind_err (dict_get pd link) (\<lambda>old. Inr (dict_set pd link (old + ?inc))))
            ?base"
      using len by (simp add: py_div_def)
    also have "\<dots> = Inr (map (\<lambda>(p, w). (p, if p \<in> set (list_of_dlist links) then w + ?inc else w)) ?base)"
      using dist closed by (intro for_each_bump) (simp_all add: kb)
    finally show ?thesis
      using False by (simp add: transition_model_def page fill dlist_member_iff comp_def)
  qed
qed

text \<open>The probabilities that \<open>transition_model\<close> returns sum to 1, for every damping factor.\<close>

lemma transition_model_total:
  assumes dist: "distinct (keys corpus)"
    and page: "dict_get corpus page = Inr links"
    and closed: "set (list_of_dlist links) \<subseteq> set (keys corpus)"
  shows "\<exists>model. transition_model corpus page d = Inr model
           \<and> keys model = keys corpus \<and> sum_list (dict_values model) = 1"
proof -
  let ?N = "real (length corpus)"
  define f where "f = (\<lambda>p. if Dlist.null links then 1 / ?N
                 else (1 - d) / ?N + (if Dlist.member links p then d / real (Dlist.length links) else 0))"
  let ?pd = "map (\<lambda>p. (p, f p)) (keys corpus)"
  have "(page, links) \<in> set corpus"
    using dist page by (simp add: dict_get_Inr_iff)
  then have N: "?N > 0" by (cases corpus) auto
  have len: "length (keys corpus) = length corpus" by (simp add: keys_def)
  have run: "transition_model corpus page d = Inr ?pd"
    unfolding f_def using dist page closed by (rule transition_model_value)
  have ks: "keys ?pd = keys corpus" by (simp add: keys_def comp_def)
  have total: "sum_list (dict_values ?pd) = 1"
  proof (cases "Dlist.null links")
    case True
    then have "sum_list (dict_values ?pd) = sum_list (map (\<lambda>p. 1 / ?N) (keys corpus))"
      by (simp add: dict_values_def comp_def f_def)
    also have "\<dots> = ?N * (1 / ?N)" by (simp add: sum_list_triv len)
    finally show ?thesis using N by simp
  next
    case False
    let ?L = "real (Dlist.length links)"
    from False have L: "?L > 0" by (simp add: dlist_null_iff dlist_length_eq)
    have "sum_list (dict_values ?pd)
            = sum_list (map (\<lambda>p. (1 - d) / ?N + (if p \<in> set (list_of_dlist links) then d / ?L else 0))
                 (keys corpus))"
      using False by (simp add: dict_values_def comp_def dlist_member_iff f_def)
    also have "\<dots> = (1 - d) / ?N * ?N
                    + d / ?L * real (length (filter (\<lambda>p. p \<in> set (list_of_dlist links)) (keys corpus)))"
      by (simp add: sum_list_base_bonus len)
    also have "length (filter (\<lambda>p. p \<in> set (list_of_dlist links)) (keys corpus)) = Dlist.length links"
      using dist closed by (simp add: length_filter_member dlist_length_eq)
    finally show ?thesis using N L by simp
  qed
  from run ks total show ?thesis by blast
qed

subsection \<open>A page that is not in the corpus\<close>

text \<open>
  C3, as the code has it. \<open>transition_model\<close> does not validate its argument: for every
  graph and every page that is not among its keys, the lookup \<^verbatim>\<open>corpus[page]\<close> raises
  KeyError and no distribution is returned.
\<close>

theorem transition_model_missing_page:
  assumes "page \<notin> set (keys corpus)"
  shows "transition_model corpus page d = Inl KeyError"
  using assms by (simp add: transition_model_def dict_get_absent)

theorem transition_model_missing_page_witness:
  "transition_model [(''1.html'', dlist_of_list [''2.html'']), (''2.html'', dlist_of_list [])] ''3.html'' (85 / 100)
     = Inl KeyError"
  using transition_model_missing_page
    [of "''3.html''" "[(''1.html'', dlist_of_list [''2.html'']), (''2.html'', dlist_of_list [])]" "85 / 100"]
  by (simp add: keys_def)

text \<open>
  The call fails on the one-page corpus \<^verbatim>\<open>{"1.html": set()}\<close> for the page
  \<^verbatim>\<open>"2.html"\<close>, so "no error is raised for a page with no entry" does not hold.
\<close>

theorem transition_model_missing_page_raises:
  "transition_model [(''1.html'', dlist_of_list [])] ''2.html'' (85 / 100) = Inl KeyError"
  by (simp add: transition_model_def dict_get_def)

subsection \<open>The crawled graph\<close>

lemma for_each_invariant:
  assumes "for_each xs body s = Inr s'" and "I s"
    and "\<And>x t t'. x \<in> set xs \<Longrightarrow> I t \<Longrightarrow> body x t = Inr t' \<Longrightarrow> I t'"
  shows "I s'"
  using assms
proof (induction xs arbitrary: s)
  case Nil
  then show ?case by simp
next
  case (Cons x xs)
  from Cons.prems(1) obtain t where t: "body x s = Inr t" and rest: "for_each xs body t = Inr s'"
    by (auto split: sum.splits)
  have "I t" using Cons.prems(3) [of x s t] Cons.prems(2) t by simp
  with rest show ?case using Cons.prems(3) by (intro Cons.IH) auto
qed

text \<open>A loop that replaces the values stored under some of the keys, one key at a time.\<close>

lemma for_each_modify:
  assumes "keys d = K" and "distinct K" and "distinct ks" and "set ks \<subseteq> set K"
    and body: "\<And>k t. keys t = K \<Longrightarrow>
                 body k t = bind_err (dict_get t k) (\<lambda>old. Inr (dict_set t k (h old)))"
  shows "for_each ks body d = Inr (map (\<lambda>(p, w). (p, if p \<in> set ks then h w else w)) d)"
  using assms(1,3,4)
proof (induction ks arbitrary: d)
  case Nil
  then show ?case by simp
next
  case (Cons l ls)
  from Cons.prems obtain w where w: "(l, w) \<in> set d" by (auto simp: keys_def)
  let ?d = "map (\<lambda>(p, w). (p, if p = l then h w else w)) d"
  have dist: "distinct (keys d)" using Cons.prems(1) assms(2) by simp
  have get: "dict_get d l = Inr w" using dist w by (simp add: dict_get_present)
  have "dict_set d l (h w) = map (\<lambda>(p, w'). (p, if p = l then h w else w')) d"
    using dist Cons.prems by (simp add: dict_set_present)
  also have "\<dots> = ?d"
    using dist w by (auto simp: keys_def dest: eq_key_imp_eq_value)
  finally have set: "dict_set d l (h w) = ?d" .
  have k: "keys ?d = K" using Cons.prems(1) by (auto simp: keys_def)
  have "for_each ls body ?d = Inr (map (\<lambda>(p, w). (p, if p \<in> set ls then h w else w)) ?d)"
    using Cons.prems k by (intro Cons.IH) auto
  moreover have "map (\<lambda>(p, w). (p, if p \<in> set ls then h w else w)) ?d
     = map (\<lambda>(p, w). (p, if p \<in> set (l # ls) then h w else w)) d"
    using Cons.prems(2) by auto
  ultimately show ?case by (simp add: body [OF Cons.prems(1)] get set)
qed

lemma set_dict_set: "set (dict_set d k v) \<subseteq> insert (k, v) (set d)"
  by (induction d) (auto split: if_splits)

lemma distinct_keys_dict_set: "distinct (keys d) \<Longrightarrow> distinct (keys (dict_set d k v))"
  by (simp add: keys_dict_set)

lemma dlist_remove_iff: "Dlist.member (Dlist.remove x ls) y \<longleftrightarrow> Dlist.member ls y \<and> y \<noteq> x"
  by (auto simp: dlist_member_iff)

lemma dlist_filter_iff: "Dlist.member (Dlist.filter P ls) y \<longleftrightarrow> Dlist.member ls y \<and> P y"
  by (auto simp: dlist_member_iff)

text \<open>
  The graph that \<open>crawl\<close> returns: the first loop collects, for every name ending in
  \<open>.html\<close>, the links found in the file without the file itself; the second loop keeps the
  links that are keys.
\<close>

lemma crawl_result:
  assumes "crawl fs findall directory = Inr corpus"
  obtains pages where "distinct (keys pages)"
    and "\<forall>(filename, links) \<in> set pages.
           endswith filename ''.html'' \<and> \<not> Dlist.member links filename"
    and "corpus = map (\<lambda>(filename, links).
                         (filename, Dlist.filter (\<lambda>link. link \<in> set (keys pages)) links)) pages"
proof -
  let ?first = "\<lambda>filename pages.
     if \<not> endswith filename ''.html'' then Inr pages
     else bind_err (read_file fs (path_join directory filename)) (\<lambda>contents.
            let links = findall contents in
            Inr (dict_set pages filename (Dlist.remove filename (dlist_of_list links))))"
  let ?second = "\<lambda>filename pages.
     bind_err (dict_get pages filename) (\<lambda>links.
       Inr (dict_set pages filename (Dlist.filter (\<lambda>link. link \<in> set (keys pages)) links)))"
  let ?I = "\<lambda>pages. distinct (keys pages) \<and>
     (\<forall>(filename, links) \<in> set pages. endswith filename ''.html'' \<and> \<not> Dlist.member links filename)"
  from assms obtain filenames pages
    where first: "for_each filenames ?first [] = Inr pages"
      and second: "for_each (keys pages) ?second pages = Inr corpus"
    by (auto simp: crawl_def bind_err_def split: sum.splits)
  have inv: "?I pages"
  proof (rule for_each_invariant [OF first, where I = ?I])
    show "?I []" by (simp add: keys_def)
  next
    fix x t t'
    assume t: "?I t" and step: "?first x t = Inr t'"
    show "?I t'"
    proof (cases "endswith x ''.html''")
      case False
      with step t show ?thesis by simp
    next
      case True
      with step obtain contents
        where t': "t' = dict_set t x (Dlist.remove x (dlist_of_list (findall contents)))"
        by (auto simp: bind_err_def split: sum.splits)
      have "set t' \<subseteq> insert (x, Dlist.remove x (dlist_of_list (findall contents))) (set t)"
        unfolding t' by (rule set_dict_set)
      moreover have "distinct (keys t')" unfolding t' using t by (simp add: distinct_keys_dict_set)
      ultimately show ?thesis using t True by (auto simp: dlist_remove_iff)
    qed
  qed
  have "for_each (keys pages) ?second pages
          = Inr (map (\<lambda>(p, w). (p, if p \<in> set (keys pages)
                                    then Dlist.filter (\<lambda>link. link \<in> set (keys pages)) w else w)) pages)"
    using inv by (intro for_each_modify [where K = "keys pages"]) simp_all
  also have "map (\<lambda>(p, w). (p, if p \<in> set (keys pages)
                                then Dlist.filter (\<lambda>link. link \<in> set (keys pages)) w else w)) pages
               = map (\<lambda>(p, w). (p, Dlist.filter (\<lambda>link. link \<in> set (keys pages)) w)) pages"
    by (auto simp: keys_def rev_image_eqI)
  finally have "corpus = map (\<lambda>(p, w). (p, Dlist.filter (\<lambda>link. link \<in> set (keys pages)) w)) pages"
    using second by simp
  with inv that show thesis by blast
qed

text \<open>
  C9. For every directory, the graph that \<open>crawl\<close> returns has no page among its own
  outbound links, and every member of every outbound link set is a key of the graph: links
  to targets outside the corpus do not appear.
\<close>

theorem crawl_links_closed:
  assumes "crawl fs findall directory = Inr corpus"
  shows "\<forall>(page, links) \<in> set corpus.
           \<not> Dlist.member links page
         \<and> (\<forall>link. Dlist.member links link \<longrightarrow> link \<in> set (keys corpus))"
proof -
  from assms obtain pages where
    inv: "\<forall>(filename, links) \<in> set pages.
            endswith filename ''.html'' \<and> \<not> Dlist.member links filename"
    and corpus: "corpus = map (\<lambda>(filename, links).
                   (filename, Dlist.filter (\<lambda>link. link \<in> set (keys pages)) links)) pages"
    by (rule crawl_result)
  have ks: "keys corpus = keys pages" unfolding corpus by (auto simp: keys_def)
  show ?thesis
    using inv unfolding ks unfolding corpus by (auto simp: dlist_filter_iff)
qed

theorem crawl_links_closed_witness:
  "\<exists>corpus.
     crawl \<lparr>listdir = (\<lambda>d. if d = ''corpus'' then Inr [''1.html'', ''2.html'', ''notes.txt'']
                           else Inl OSError),
            read_file = (\<lambda>path. if path = ''corpus/1.html'' then Inr ''one''
                           else if path = ''corpus/2.html'' then Inr ''two'' else Inl OSError)\<rparr>
       (\<lambda>contents. if contents = ''one'' then [''2.html'', ''1.html'', ''notes.txt'', ''2.html'']
                    else [''3.html''])
       ''corpus''
     = Inr corpus
     \<and> corpus = [(''1.html'', dlist_of_list [''2.html'']), (''2.html'', dlist_of_list [])]
     \<and> (\<forall>(page, links) \<in> set corpus.
           \<not> Dlist.member links page
         \<and> (\<forall>link. Dlist.member links link \<longrightarrow> link \<in> set (keys corpus)))"
proof -
  let ?fs = "\<lparr>listdir = (\<lambda>d. if d = ''corpus'' then Inr [''1.html'', ''2.html'', ''notes.txt'']
                           else Inl OSError),
            read_file = (\<lambda>path. if path = ''corpus/1.html'' then Inr ''one''
                           else if path = ''corpus/2.html'' then Inr ''two'' else Inl OSError)\<rparr>"
  let ?findall = "\<lambda>contents. if contents = ''one''
                    then [''2.html'', ''1.html'', ''notes.txt'', ''2.html''] else [''3.html'']"
  let ?corpus = "[(''1.html'', dlist_of_list [''2.html'']), (''2.html'', dlist_of_list [])]"
  have run: "crawl ?fs ?findall ''corpus'' = Inr ?corpus"
    by (simp add: crawl_def endswith_def path_join_def keys_def dict_get_def Dlist.dlist_eq_iff)
  from run crawl_links_closed [OF run] show ?thesis by blast
qed

text \<open>
  C10. \<open>crawl\<close> admits only files whose name ends in \<open>.html\<close>: for every directory,
  every key of the returned graph ends in \<open>.html\<close>, and a name without that suffix is
  neither a key nor a member of any page's outbound link set.
\<close>

theorem crawl_html_only:
  assumes "crawl fs findall directory = Inr corpus"
  shows "(\<forall>page \<in> set (keys corpus). endswith page ''.html'')
       \<and> (\<forall>name. \<not> endswith name ''.html'' \<longrightarrow>
             name \<notin> set (keys corpus)
           \<and> (\<forall>(page, links) \<in> set corpus. \<not> Dlist.member links name))"
proof -
  from assms obtain pages where
    inv: "\<forall>(filename, links) \<in> set pages.
            endswith filename ''.html'' \<and> \<not> Dlist.member links filename"
    and corpus: "corpus = map (\<lambda>(filename, links).
                   (filename, Dlist.filter (\<lambda>link. link \<in> set (keys pages)) links)) pages"
    by (rule crawl_result)
  have ks: "keys corpus = keys pages" unfolding corpus by (auto simp: keys_def)
  have html: "\<forall>page \<in> set (keys pages). endswith page ''.html''"
    using inv by (auto simp: keys_def)
  show ?thesis
    using html unfolding ks unfolding corpus by (auto simp: dlist_filter_iff)
qed

theorem crawl_html_only_witness:
  "\<exists>corpus.
     crawl \<lparr>listdir = (\<lambda>d. if d = ''web'' then Inr [''index.html'', ''style.css'', ''about.html'']
                           else Inl OSError),
            read_file = (\<lambda>path. if path = ''web/index.html'' then Inr ''home''
                           else if path = ''web/about.html'' then Inr ''about'' else Inl OSError)\<rparr>
       (\<lambda>contents. if contents = ''home'' then [''style.css'', ''about.html''] else [''index.html''])
       ''web''
     = Inr corpus
     \<and> corpus = [(''index.html'', dlist_of_list [''about.html'']), (''about.html'', dlist_of_list [''index.html''])]
     \<and> (\<forall>page \<in> set (keys corpus). endswith page ''.html'')
     \<and> (\<forall>name. \<not> endswith name ''.html'' \<longrightarrow>
           name \<notin> set (keys corpus)
         \<and> (\<forall>(page, links) \<in> set corpus. \<not> Dlist.member links name))"
proof -
  let ?fs = "\<lparr>listdir = (\<lambda>d. if d = ''web'' then Inr [''index.html'', ''style.css'', ''about.html'']
                           else Inl OSError),
            read_file = (\<lambda>path. if path = ''web/index.html'' then Inr ''home''
                           else if path = ''web/about.html'' then Inr ''about'' else Inl OSError)\<rparr>"
  let ?findall = "\<lambda>contents. if contents = ''home'' then [''style.css'', ''about.html'']
                    else [''index.html'']"
  let ?corpus = "[(''index.html'', dlist_of_list [''about.html'']), (''about.html'', dlist_of_list [''index.html''])]"
  have run: "crawl ?fs ?findall ''web'' = Inr ?corpus"
    by (simp add: crawl_def endswith_def path_join_def keys_def dict_get_def Dlist.dlist_eq_iff)
  from run crawl_html_only [OF run] show ?thesis by blast
qed

subsection \<open>The command line\<close>

text \<open>
  C8. When the program is started with an argument vector of any length other than two
  (the program name and one positional argument), it prints nothing on standard output,
  writes the usage message on standard error and exits with a non-zero status.
\<close>

theorem main_usage_error:
  assumes "length argv \<noteq> 2"
  shows "\<exists>out. main argv fs findall rnd = Some out
           \<and> stdout out = []
           \<and> stderr_message (ending out) = Some ''Usage: python pagerank.py corpus''
           \<and> exit_status (ending out) \<noteq> 0"
  using assms by (simp add: main_def)

theorem main_usage_error_witness:
  "\<exists>out. main [''pagerank.py'', ''corpus0'', ''corpus1'']
             \<lparr>listdir = (\<lambda>d. Inr []), read_file = (\<lambda>path. Inl OSError)\<rparr> (\<lambda>contents. []) (\<lambda>i. 0)
           = Some out
         \<and> stdout out = []
         \<and> stderr_message (ending out) = Some ''Usage: python pagerank.py corpus''
         \<and> exit_status (ending out) \<noteq> 0"
  using main_usage_error
    [of "[''pagerank.py'', ''corpus0'', ''corpus1'']"
        "\<lparr>listdir = (\<lambda>d. Inr []), read_file = (\<lambda>path. Inl OSError)\<rparr>" "\<lambda>contents. []" "\<lambda>i. 0"]
  by simp

subsection \<open>One pass of the iteration\<close>


lemma for_each_assign:
  assumes "keys d = K" and "distinct K" and "distinct ks" and "set ks \<subseteq> set K"
    and body: "\<And>k t. keys t = K \<Longrightarrow> body k t = Inr (dict_set t k (v k))"
  shows "for_each ks body d = Inr (map (\<lambda>(p, w). (p, if p \<in> set ks then v p else w)) d)"
  using assms(1,3,4)
proof (induction ks arbitrary: d)
  case Nil
  then show ?case by simp
next
  case (Cons l ls)
  let ?d = "map (\<lambda>(p, w). (p, if p = l then v p else w)) d"
  have dist: "distinct (keys d)" using Cons.prems(1) assms(2) by simp
  have "dict_set d l (v l) = map (\<lambda>(p, w'). (p, if p = l then v l else w')) d"
    using dist Cons.prems by (simp add: dict_set_present)
  also have "\<dots> = ?d" by auto
  finally have set: "dict_set d l (v l) = ?d" .
  have k: "keys ?d = K" using Cons.prems(1) by (auto simp: keys_def)
  have "for_each ls body ?d = Inr (map (\<lambda>(p, w). (p, if p \<in> set ls then v p else w)) ?d)"
    using Cons.prems k by (intro Cons.IH) auto
  moreover have "map (\<lambda>(p, w). (p, if p \<in> set ls then v p else w)) ?d
     = map (\<lambda>(p, w). (p, if p \<in> set (l # ls) then v p else w)) d"
    by auto
  ultimately show ?case by (simp add: body [OF Cons.prems(1)] set)
qed

lemma for_each_flag:
  assumes "\<And>x t. x \<in> set xs \<Longrightarrow> body x t = Inr (if bad x then False else t)"
  shows "for_each xs body t = Inr (t \<and> (\<forall>x \<in> set xs. \<not> bad x))"
  using assms
proof (induction xs arbitrary: t)
  case Nil
  then show ?case by simp
next
  case (Cons x xs)
  have "body x t = Inr (if bad x then False else t)" using Cons.prems by simp
  moreover have "for_each xs body (if bad x then False else t)
                   = Inr ((if bad x then False else t) \<and> (\<forall>x \<in> set xs. \<not> bad x))"
    using Cons.prems by (intro Cons.IH) simp
  ultimately show ?case by auto
qed

lemma keys_rank_dict [simp]: "keys (rank_dict corpus r) = keys corpus"
  by (simp add: rank_dict_def keys_def comp_def)


lemma length_keys [simp]: "length (keys d) = length d"
  by (simp add: keys_def)




subsection \<open>The loop\<close>




subsection \<open>The pass is a contraction\<close>

lemma sum_list_swap:
  fixes f :: "'a \<Rightarrow> 'b \<Rightarrow> real"
  shows "(\<Sum>x \<leftarrow> xs. \<Sum>y \<leftarrow> ys. f x y) = (\<Sum>y \<leftarrow> ys. \<Sum>x \<leftarrow> xs. f x y)"
  by (induction xs) (simp_all add: sum_list_addf)

lemma weight_nonneg: "0 \<le> weight N p links"
  by (simp add: weight_def)

text \<open>The shares that a page passes on: at most its whole rank, and all of it when its links are in the corpus.\<close>

lemma weight_sum_value:
  assumes N: "N = length ks" and pos: "ks \<noteq> []"
  shows "(\<Sum>p \<leftarrow> ks. weight N p links)
           = (if Dlist.null links then 1
              else real (length (filter (\<lambda>p. p \<in> set (list_of_dlist links)) ks))
                     / real (Dlist.length links))"
proof (cases "Dlist.null links")
  case True
  have Npos: "real N > 0" using N pos by simp
  from True have "(\<Sum>p \<leftarrow> ks. weight N p links) = (\<Sum>p \<leftarrow> ks. 1 / real N)"
    by (simp add: weight_def)
  also have "\<dots> = real N * (1 / real N)" by (simp add: sum_list_triv N)
  finally show ?thesis using Npos True by simp
next
  case False
  let ?L = "list_of_dlist links"
  have "(\<Sum>p \<leftarrow> ks. weight N p links)
          = (\<Sum>p \<leftarrow> ks. 0 + (if p \<in> set ?L then 1 / real (Dlist.length links) else 0))"
    using False by (simp add: weight_def dlist_member_iff)
  also have "\<dots> = 1 / real (Dlist.length links) * real (length (filter (\<lambda>p. p \<in> set ?L) ks))"
    by (simp only: sum_list_base_bonus)
  finally show ?thesis using False by simp
qed


lemma weight_sum_eq:
  assumes dist: "distinct ks" and N: "N = length ks" and pos: "ks \<noteq> []"
    and closed: "set (list_of_dlist links) \<subseteq> set ks"
  shows "(\<Sum>p \<leftarrow> ks. weight N p links) = 1"
proof (cases "Dlist.null links")
  case True
  then show ?thesis by (simp add: weight_sum_value [OF N pos])
next
  case False
  let ?L = "list_of_dlist links"
  from False have Lpos: "real (length ?L) > 0" by (simp add: dlist_null_iff)
  have "length (filter (\<lambda>p. p \<in> set ?L) ks) = length ?L"
    using dist closed by (intro length_filter_member) simp_all
  then show ?thesis using Lpos False by (simp add: weight_sum_value [OF N pos] dlist_length_eq)
qed







subsection \<open>The ranks stay a probability distribution\<close>

text \<open>
  On a corpus whose links all point to pages of the corpus, one pass with a damping factor
  in [0, 1] keeps the ranks non-negative and keeps their sum at 1.
\<close>

lemma relax_nonneg:
  assumes "0 \<le> d" and "d \<le> 1" and "\<forall>p \<in> set (keys corpus). 0 \<le> r p"
  shows "0 \<le> relax corpus d r p"
proof -
  have "0 \<le> (\<Sum>(q, links) \<leftarrow> corpus. r q * weight (length corpus) p links)"
    using assms(3) by (intro sum_list_nonneg) (auto simp: keys_def weight_nonneg)
  then show ?thesis using assms(1,2) by (simp add: relax_def)
qed

lemma relax_sum:
  assumes dist: "distinct (keys corpus)" and closed: "links_closed corpus"
    and ne: "corpus \<noteq> []"
  shows "(\<Sum>p \<leftarrow> keys corpus. relax corpus d r p) = (1 - d) + d * (\<Sum>p \<leftarrow> keys corpus. r p)"
proof -
  let ?N = "length corpus"
  have ks: "keys corpus \<noteq> []" and len: "?N = length (keys corpus)"
    using ne by (simp_all add: keys_def)
  have N: "real ?N \<noteq> 0" using ne by simp
  have "(\<Sum>p \<leftarrow> keys corpus. relax corpus d r p)
          = (\<Sum>p \<leftarrow> keys corpus. (1 - d) / real ?N)
            + (\<Sum>p \<leftarrow> keys corpus. d * (\<Sum>(q, links) \<leftarrow> corpus. r q * weight ?N p links))"
    by (simp add: relax_def sum_list_addf)
  also have "(\<Sum>p \<leftarrow> keys corpus. (1 - d) / real ?N) = 1 - d"
    using N by (simp add: sum_list_triv)
  also have "(\<Sum>p \<leftarrow> keys corpus. d * (\<Sum>(q, links) \<leftarrow> corpus. r q * weight ?N p links))
               = d * (\<Sum>p \<leftarrow> keys corpus. \<Sum>(q, links) \<leftarrow> corpus. r q * weight ?N p links)"
    by (simp add: sum_list_const_mult)
  also have "(\<Sum>p \<leftarrow> keys corpus. \<Sum>(q, links) \<leftarrow> corpus. r q * weight ?N p links)
               = (\<Sum>x \<leftarrow> corpus. \<Sum>p \<leftarrow> keys corpus. r (fst x) * weight ?N p (snd x))"
    by (subst sum_list_swap) (simp add: case_prod_beta)
  also have "\<dots> = (\<Sum>x \<leftarrow> corpus. r (fst x) * (\<Sum>p \<leftarrow> keys corpus. weight ?N p (snd x)))"
    by (simp add: sum_list_const_mult)
  also have "\<dots> = (\<Sum>x \<leftarrow> corpus. r (fst x) * 1)"
  proof (intro arg_cong [where f = sum_list] map_cong refl)
    fix x assume "x \<in> set corpus"
    then have "set (list_of_dlist (snd x)) \<subseteq> set (keys corpus)"
      using closed by (auto simp: links_closed_def)
    then show "r (fst x) * (\<Sum>p \<leftarrow> keys corpus. weight ?N p (snd x)) = r (fst x) * 1"
      by (simp add: weight_sum_eq [OF dist len ks])
  qed
  also have "\<dots> = (\<Sum>p \<leftarrow> keys corpus. r p)"
    by (simp add: keys_def comp_def)
  finally show ?thesis .
qed

lemma relax_iterates_distribution:
  assumes dist: "distinct (keys corpus)" and closed: "links_closed corpus"
    and ne: "corpus \<noteq> []" and d: "0 \<le> d" "d \<le> 1"
  shows "(\<forall>p \<in> set (keys corpus). 0 \<le> (relax corpus d ^^ k) (\<lambda>p. 1 / real (length corpus)) p)
       \<and> (\<Sum>p \<leftarrow> keys corpus. (relax corpus d ^^ k) (\<lambda>p. 1 / real (length corpus)) p) = 1"
proof (induction k)
  case 0
  have "real (length corpus) \<noteq> 0" using ne by simp
  then show ?case by (simp add: sum_list_triv)
next
  case (Suc k)
  let ?r = "(relax corpus d ^^ k) (\<lambda>p. 1 / real (length corpus))"
  from Suc.IH have nonneg: "\<forall>p \<in> set (keys corpus). 0 \<le> ?r p"
    and total: "(\<Sum>p \<leftarrow> keys corpus. ?r p) = 1" by simp_all
  have "0 \<le> relax corpus d ?r p" for p
    using d nonneg by (rule relax_nonneg)
  moreover have "(\<Sum>p \<leftarrow> keys corpus. relax corpus d ?r p) = 1"
    using relax_sum [OF dist closed ne, where d = d and r = ?r] total by simp
  ultimately show ?case by simp
qed

lemma dict_values_rank_dict: "dict_values (rank_dict corpus r) = map r (keys corpus)"
  by (simp add: dict_values_def rank_dict_def comp_def)

subsection \<open>Pages without links\<close>

lemma relax_all_dangling:
  assumes ne: "corpus \<noteq> []" and dangling: "\<forall>(page, links) \<in> set corpus. Dlist.null links"
  shows "relax corpus d (\<lambda>p. 1 / real (length corpus)) p = 1 / real (length corpus)"
proof -
  let ?N = "real (length corpus)"
  have N: "?N \<noteq> 0" using ne by simp
  have "(\<Sum>(q, links) \<leftarrow> corpus. 1 / ?N * weight (length corpus) p links)
          = (\<Sum>x \<leftarrow> corpus. 1 / ?N * (1 / ?N))"
    using dangling by (intro arg_cong [where f = sum_list] map_cong) (auto simp: weight_def)
  also have "\<dots> = ?N * (1 / ?N * (1 / ?N))" by (simp add: sum_list_triv)
  also have "\<dots> = 1 / ?N" using N by simp
  finally show ?thesis by (simp add: relax_def algebra_simps diff_divide_distrib)
qed

subsection \<open>A hub with two leaves\<close>



subsection \<open>The sampler\<close>

lemma random_choice_member:
  assumes "seq \<noteq> []" and "0 \<le> u" and "u < 1"
  shows "\<exists>x \<in> set seq. random_choice u seq = Inr x"
proof -
  let ?n = "real (length seq)"
  have n: "0 < ?n" using assms(1) by simp
  have "u * ?n < ?n" using assms(3) n by simp
  then have "\<lfloor>u * ?n\<rfloor> < int (length seq)" by (simp add: floor_less_iff)
  moreover have "0 \<le> \<lfloor>u * ?n\<rfloor>" using assms(2) by simp
  ultimately have "nat \<lfloor>u * ?n\<rfloor> < length seq" by linarith
  then show ?thesis using assms(1) by (simp add: random_choice_def Let_def)
qed

lemma bisect_bounds:
  "lo \<le> hi \<Longrightarrow> hi < length a \<Longrightarrow> \<exists>i. bisect a x lo hi = Inr i \<and> lo \<le> i \<and> i \<le> hi"
proof (induction a x lo hi rule: bisect.induct)
  case (1 a x lo hi)
  show ?case
  proof (cases "lo < hi")
    case False
    with "1.prems" show ?thesis by (subst bisect.simps) simp
  next
    case True
    let ?mid = "(lo + hi) div 2"
    have mid: "lo \<le> ?mid" "?mid < hi" "?mid < length a" using True "1.prems" by auto
    show ?thesis
    proof (cases "x < a ! ?mid")
      case less: True
      have "\<exists>i. bisect a x lo ?mid = Inr i \<and> lo \<le> i \<and> i \<le> ?mid"
        using True mid less by (intro "1.IH"(1)) simp_all
      then obtain i where "bisect a x lo ?mid = Inr i" "lo \<le> i" "i \<le> ?mid" by blast
      then have "bisect a x lo hi = Inr i \<and> lo \<le> i \<and> i \<le> hi"
        using True mid less by (subst bisect.simps) (simp add: Let_def)
      then show ?thesis by blast
    next
      case geq: False
      have "\<exists>i. bisect a x (?mid + 1) hi = Inr i \<and> ?mid + 1 \<le> i \<and> i \<le> hi"
        using True mid geq "1.prems" by (intro "1.IH"(2)) simp_all
      then obtain i where "bisect a x (?mid + 1) hi = Inr i" "?mid + 1 \<le> i" "i \<le> hi" by blast
      then have "bisect a x lo hi = Inr i \<and> lo \<le> i \<and> i \<le> hi"
        using True mid geq by (subst bisect.simps) (simp add: Let_def)
      then show ?thesis by blast
    qed
  qed
qed

lemma length_accumulate_from [simp]: "length (accumulate_from acc ws) = length ws"
  by (induction ws arbitrary: acc) simp_all

lemma last_Cons_accumulate_from:
  "last (x # accumulate_from acc ws) = (if ws = [] then x else acc + sum_list ws)"
  by (induction ws arbitrary: acc x) (simp_all add: add.assoc)

lemma last_accumulate_from:
  "ws \<noteq> [] \<Longrightarrow> last (accumulate_from acc ws) = acc + sum_list ws"
  using last_Cons_accumulate_from [of "acc + hd ws" "acc + hd ws" "tl ws"]
  by (cases ws) (simp_all add: add.assoc)

lemma random_choices_member:
  assumes "population \<noteq> []" and "length weights = length population"
    and "0 < sum_list weights"
  shows "\<exists>x \<in> set population. random_choices u population weights = Inr x"
proof -
  let ?n = "length population"
  let ?cum = "accumulate weights"
  have ws: "weights \<noteq> []" using assms(1,2) by auto
  have len: "length ?cum = ?n" using assms(2) by (simp add: accumulate_def)
  have cum: "?cum \<noteq> []" using len assms(1) by auto
  have last: "last ?cum = sum_list weights"
    using ws by (simp add: accumulate_def last_accumulate_from)
  have "0 \<le> ?n - 1" "?n - 1 < length ?cum" using assms(1) len by simp_all
  then obtain i where i: "bisect ?cum (u * sum_list weights) 0 (?n - 1) = Inr i" "i \<le> ?n - 1"
    using bisect_bounds [of 0 "?n - 1" ?cum "u * sum_list weights"] by blast
  have "i < ?n" using i(2) assms(1) by (cases population) auto
  then have "random_choices u population weights = Inr (population ! i)"
    using len cum last assms(3) i(1) by (simp add: random_choices_def Let_def)
  moreover have "population ! i \<in> set population" using \<open>i < ?n\<close> by simp
  ultimately show ?thesis by blast
qed

text \<open>Every step of the walk is at a page of the corpus.\<close>

lemma surfer_in_corpus:
  assumes dist: "distinct (keys corpus)" and closed: "links_closed corpus"
    and ne: "corpus \<noteq> []" and rnd: "0 \<le> rnd 0" "rnd 0 < 1"
  shows "\<exists>p \<in> set (keys corpus). surfer corpus d rnd i = Inr p"
proof (induction i)
  case 0
  have "keys corpus \<noteq> []" using ne by (simp add: keys_def)
  then show ?case using rnd by (simp add: random_choice_member)
next
  case (Suc i)
  then obtain p where p: "p \<in> set (keys corpus)" "surfer corpus d rnd i = Inr p" by blast
  then obtain links where links: "(p, links) \<in> set corpus" by (auto simp: keys_def)
  then have get: "dict_get corpus p = Inr links" using dist by (simp add: dict_get_present)
  have sub: "set (list_of_dlist links) \<subseteq> set (keys corpus)"
    using closed links by (auto simp: links_closed_def)
  obtain model where model: "transition_model corpus p d = Inr model"
    "keys model = keys corpus" "sum_list (dict_values model) = 1"
    using transition_model_total [OF dist get sub, of d] by (elim exE conjE)
  have pop: "keys model \<noteq> []" using model(2) ne by (simp add: keys_def)
  have len: "length (dict_values model) = length (keys model)"
    by (simp add: dict_values_def keys_def)
  have pos: "0 < sum_list (dict_values model)" using model(3) by simp
  obtain x where x: "x \<in> set (keys model)"
    "random_choices (rnd (Suc i)) (keys model) (dict_values model) = Inr x"
    using random_choices_member [OF pop len pos, of "rnd (Suc i)"] by (elim bexE)
  show ?case using x p(2) model(1,2) by simp
qed

lemma for_each_append:
  "for_each (xs @ ys) body s =
     (case for_each xs body s of Inl e \<Rightarrow> Inl e | Inr s' \<Rightarrow> for_each ys body s')"
  by (induction xs arbitrary: s) (simp_all split: sum.splits)

lemma visit_count_Suc:
  "visit_count corpus d rnd (Suc n) p
     = visit_count corpus d rnd n p + (if surfer corpus d rnd n = Inr p then 1 else 0)"
  by (simp add: visit_count_def)

lemma dict_set_tabulate:
  assumes "distinct ks" and "q \<in> set ks"
  shows "dict_set (map (\<lambda>p. (p, f p)) ks) q v = map (\<lambda>p. (p, if p = q then v else f p)) ks"
proof -
  have "keys (map (\<lambda>p. (p, f p)) ks) = ks" by (simp add: keys_def comp_def)
  then have "dict_set (map (\<lambda>p. (p, f p)) ks) q v
               = map (\<lambda>(p, w). (p, if p = q then v else w)) (map (\<lambda>p. (p, f p)) ks)"
    using assms by (intro dict_set_present) simp_all
  then show ?thesis by (simp add: comp_def)
qed

lemma dict_get_tabulate:
  assumes "distinct ks" and "q \<in> set ks"
  shows "dict_get (map (\<lambda>p. (p, f p)) ks) q = Inr (f q)"
proof -
  have "distinct (keys (map (\<lambda>p. (p, f p)) ks))" using assms(1) by (simp add: keys_def comp_def)
  moreover have "(q, f q) \<in> set (map (\<lambda>p. (p, f p)) ks)" using assms(2) by auto
  ultimately show ?thesis by (rule dict_get_present)
qed

lemma sum_list_indicator:
  assumes "distinct ks" and "q \<in> set ks"
  shows "(\<Sum>p \<leftarrow> ks. if q = p then 1 else 0) = (1::nat)"
  using assms by (induction ks) auto

text \<open>The visits of the first \<open>n\<close> steps add up to \<open>n\<close> when every step is at a page of the corpus.\<close>

lemma visit_count_sum:
  assumes dist: "distinct (keys corpus)"
    and steps: "\<And>i. \<exists>p \<in> set (keys corpus). surfer corpus d rnd i = Inr p"
  shows "(\<Sum>p \<leftarrow> keys corpus. visit_count corpus d rnd n p) = n"
proof (induction n)
  case 0
  then show ?case by (simp add: visit_count_def)
next
  case (Suc n)
  from steps [of n] obtain q where q: "q \<in> set (keys corpus)" "surfer corpus d rnd n = Inr q"
    by blast
  have "(\<Sum>p \<leftarrow> keys corpus. visit_count corpus d rnd (Suc n) p)
          = (\<Sum>p \<leftarrow> keys corpus. visit_count corpus d rnd n p)
            + (\<Sum>p \<leftarrow> keys corpus. if q = p then 1 else 0)"
    by (simp add: visit_count_Suc q(2) sum_list_addf)
  then show ?case using Suc.IH sum_list_indicator [OF dist q(1)] by simp
qed

lemma for_each_items:
  assumes "distinct (map fst items)" and "set (map fst items) \<inter> set (keys acc) = {}"
  shows "for_each items (\<lambda>(k, c) acc. Inr (dict_set acc k (g c))) acc
           = Inr (acc @ map (\<lambda>(k, c). (k, g c)) items)"
  using assms
proof (induction items arbitrary: acc)
  case Nil
  then show ?case by simp
next
  case (Cons x items)
  obtain k c where x: "x = (k, c)" by (cases x)
  have fresh: "k \<notin> set (keys acc)" using Cons.prems x by auto
  have "distinct (map fst items)" using Cons.prems by simp
  moreover have "set (map fst items) \<inter> set (keys (acc @ [(k, g c)])) = {}"
    using Cons.prems x by (auto simp: keys_def)
  ultimately have "for_each items (\<lambda>(k, c) acc. Inr (dict_set acc k (g c))) (acc @ [(k, g c)])
                     = Inr ((acc @ [(k, g c)]) @ map (\<lambda>(k, c). (k, g c)) items)"
    by (rule Cons.IH)
  then show ?case by (simp add: x dict_set_fresh [OF fresh])
qed

lemma real_sum_list: "real (\<Sum>p \<leftarrow> ks. f p) = (\<Sum>p \<leftarrow> ks. real (f p))"
  by (induction ks) simp_all

text \<open>
  The sampling loop: after the iterations \<open>1, \<dots>, j\<close> the current page is step \<open>j\<close> of the
  walk and the counters hold the visits of the steps \<open>0, \<dots>, j\<close>.
\<close>

lemma sample_loop:
  assumes dist: "distinct (keys corpus)"
    and steps: "\<And>i. \<exists>p \<in> set (keys corpus). surfer corpus d rnd i = Inr p"
    and start: "surfer corpus d rnd 0 = Inr page0"
  shows "\<exists>page. surfer corpus d rnd j = Inr page \<and>
           for_each [1 ..< Suc j]
             (\<lambda>i (page, pagerank).
                bind_err (transition_model corpus page d) (\<lambda>model.
                bind_err (random_choices (rnd i) (keys model) (dict_values model)) (\<lambda>page.
                bind_err (dict_get pagerank page) (\<lambda>count.
                  Inr (page, dict_set pagerank page (count + 1))))))
             (page0, map (\<lambda>p. (p, int (visit_count corpus d rnd 1 p))) (keys corpus))
           = Inr (page, map (\<lambda>p. (p, int (visit_count corpus d rnd (Suc j) p))) (keys corpus))"
proof (induction j)
  case 0
  then show ?case using start by simp
next
  case (Suc j)
  let ?body = "\<lambda>i (page, pagerank).
                bind_err (transition_model corpus page d) (\<lambda>model.
                bind_err (random_choices (rnd i) (keys model) (dict_values model)) (\<lambda>page.
                bind_err (dict_get pagerank page) (\<lambda>count.
                  Inr (page, dict_set pagerank page (count + 1)))))"
  let ?counts = "\<lambda>m. map (\<lambda>p. (p, int (visit_count corpus d rnd m p))) (keys corpus)"
  from Suc.IH obtain page where page: "surfer corpus d rnd j = Inr page"
    and run: "for_each [1 ..< Suc j] ?body (page0, ?counts 1) = Inr (page, ?counts (Suc j))"
    by blast
  from steps [of "Suc j"] obtain next_page where
    next_page: "next_page \<in> set (keys corpus)" "surfer corpus d rnd (Suc j) = Inr next_page"
    by blast
  from next_page(2) page obtain model where
    model: "transition_model corpus page d = Inr model"
      "random_choices (rnd (Suc j)) (keys model) (dict_values model) = Inr next_page"
    by (cases "transition_model corpus page d") simp_all
  have get: "dict_get (?counts (Suc j)) next_page = Inr (int (visit_count corpus d rnd (Suc j) next_page))"
    using dist next_page(1) by (rule dict_get_tabulate)
  have "dict_set (?counts (Suc j)) next_page (int (visit_count corpus d rnd (Suc j) next_page) + 1)
          = map (\<lambda>p. (p, if p = next_page then int (visit_count corpus d rnd (Suc j) next_page) + 1
                           else int (visit_count corpus d rnd (Suc j) p))) (keys corpus)"
    using dist next_page(1) by (rule dict_set_tabulate)
  also have "\<dots> = ?counts (Suc (Suc j))"
    by (rule map_cong)
      (auto simp: visit_count_Suc [of corpus d rnd "Suc j"] next_page(2) simp del: surfer.simps)
  finally have set: "dict_set (?counts (Suc j)) next_page
                       (int (visit_count corpus d rnd (Suc j) next_page) + 1)
                     = ?counts (Suc (Suc j))" .
  have step: "?body (Suc j) (page, ?counts (Suc j)) = Inr (next_page, ?counts (Suc (Suc j)))"
    by (simp only: prod.case model bind_err_Inr get set)
  have "[1 ..< Suc (Suc j)] = [1 ..< Suc j] @ [Suc j]" by simp
  then have "for_each [1 ..< Suc (Suc j)] ?body (page0, ?counts 1)
               = Inr (next_page, ?counts (Suc (Suc j)))"
    by (simp only: for_each_append run sum.case for_each.simps step)
  with next_page(2) show ?case by blast
qed

section \<open>Properties of the double precision program\<close>

subsection \<open>Evaluating the rounding\<close>

text \<open>
  The rounding without its local definitions, so that rewriting evaluates it on a number,
  and the rules that evaluate the arithmetic of the program on given doubles.
\<close>

lemma round_to_double_unfold:
  "round_to_double x =
     (if x = 0 then Finite 0
      else if (2::real) ^ 1024 \<le> of_int (rne (\<bar>x\<bar> / 2 powi (exponent \<bar>x\<bar> - 52))) * 2 powi (exponent \<bar>x\<bar> - 52)
      then (if 0 < x then PlusInf else MinusInf)
      else Finite (if 0 < x then of_int (rne (\<bar>x\<bar> / 2 powi (exponent \<bar>x\<bar> - 52))) * 2 powi (exponent \<bar>x\<bar> - 52)
                   else - (of_int (rne (\<bar>x\<bar> / 2 powi (exponent \<bar>x\<bar> - 52))) * 2 powi (exponent \<bar>x\<bar> - 52))))"
  by (simp add: round_to_double_def Let_def)

lemma rne_unfold:
  "rne x = (if x - of_int \<lfloor>x\<rfloor> < 1 / 2 then \<lfloor>x\<rfloor>
            else if x - of_int \<lfloor>x\<rfloor> > 1 / 2 then \<lfloor>x\<rfloor> + 1
            else if even \<lfloor>x\<rfloor> then \<lfloor>x\<rfloor> else \<lfloor>x\<rfloor> + 1)"
  by (simp add: rne_def Let_def)

lemmas f64_eval = round_to_double_unfold rne_unfold exponent_def expo_down.simps expo_up.simps
  power_int_minus


lemmas f64_ops = dsub_def float_div_int_def float_of_int_def int_truediv_def dle_def

lemma six_transition:
  "transition_model_f64
     [(''1.html'', dlist_of_list []), (''2.html'', dlist_of_list []), (''3.html'', dlist_of_list []),
      (''4.html'', dlist_of_list []), (''5.html'', dlist_of_list []), (''6.html'', dlist_of_list [])]
     ''1.html'' (round_to_double (85 / 100))
   = Inr [(''1.html'', Finite (6004799503160661 / 2 ^ 55)),
          (''2.html'', Finite (6004799503160661 / 2 ^ 55)),
          (''3.html'', Finite (6004799503160661 / 2 ^ 55)),
          (''4.html'', Finite (6004799503160661 / 2 ^ 55)),
          (''5.html'', Finite (6004799503160661 / 2 ^ 55)),
          (''6.html'', Finite (6004799503160661 / 2 ^ 55))]"
  by (simp add: transition_model_f64_def dict_get_def keys_def dlist_null_iff f64_ops f64_eval)

lemma pass1:
  "iterate_pass_f64 [(''A'', dlist_of_list [''B'']), (''B'', dlist_of_list [''C'']),
                     (''C'', dlist_of_list [''A'']), (''D'', dlist_of_list [''A''])]
     (Finite (1 - 1 / 2 ^ 53)) 4
     [(''A'', Finite (1 / 2)), (''B'', Finite (1 / 4)), (''C'', Finite (1 / 4)), (''D'', Finite (1 / 2 ^ 55))]
     [(''A'', Finite (1 / 2)), (''B'', Finite (1 / 4)), (''C'', Finite (1 / 4)), (''D'', Finite (1 / 2 ^ 55))]
   = Inr [(''A'', Finite (1 / 4)), (''B'', Finite (1 / 2)), (''C'', Finite (1 / 4)), (''D'', Finite (1 / 2 ^ 55))]"
  by (simp add: iterate_pass_f64_def iterate_total_f64_def dict_get_def keys_def dlist_null_iff
      dlist_member_iff dlist_length_eq f64_ops f64_eval)

lemma six_dangling_result:
  "iterate_pagerank_f64
     [(''1.html'', dlist_of_list []), (''2.html'', dlist_of_list []), (''3.html'', dlist_of_list []),
      (''4.html'', dlist_of_list []), (''5.html'', dlist_of_list []), (''6.html'', dlist_of_list [])]
     (round_to_double (85 / 100))
   = Some (Inr [(''1.html'', Finite (3002399751580331 / 2 ^ 54)),
                (''2.html'', Finite (3002399751580331 / 2 ^ 54)),
                (''3.html'', Finite (3002399751580331 / 2 ^ 54)),
                (''4.html'', Finite (3002399751580331 / 2 ^ 54)),
                (''5.html'', Finite (3002399751580331 / 2 ^ 54)),
                (''6.html'', Finite (3002399751580331 / 2 ^ 54))])"
  apply (simp add: iterate_pagerank_f64_def keys_def f64_ops f64_eval)
  apply (subst iterate_loop_f64.simps)
  apply (simp add: iterate_pass_f64_def iterate_total_f64_def iterate_converged_f64_def
      dict_get_def keys_def dlist_null_iff dlist_member_iff dlist_length_eq f64_ops f64_eval)
  done

lemma sample_six:
  "sample_pagerank_f64
     [(''1.html'', dlist_of_list []), (''2.html'', dlist_of_list []), (''3.html'', dlist_of_list [])]
     (round_to_double (85 / 100)) 6 (\<lambda>i. [1 / 8, 1 / 2, 1 / 2, 1 / 2, 1 / 2, 7 / 8] ! i)
   = Inr [(''1.html'', Finite (6004799503160661 / 2 ^ 55)),
          (''2.html'', Finite (6004799503160661 / 2 ^ 53)),
          (''3.html'', Finite (6004799503160661 / 2 ^ 55))]"
  by (simp add: sample_pagerank_f64_def transition_model_f64_def random_choice_def
      random_choices_f64_def bisect_f64.simps dict_get_def keys_def dict_values_def
      dlist_null_iff f64_ops f64_eval upt_rec nat_numeral Let_def)

subsection \<open>The error of one rounding\<close>

lemma rne_error: "\<bar>of_int (rne z) - z\<bar> \<le> 1 / 2"
  unfolding rne_unfold by (auto simp: abs_le_iff)

lemma rne_nonneg: "0 \<le> z \<Longrightarrow> 0 \<le> rne z"
  unfolding rne_unfold by auto

lemma rne_le_int:
  assumes "z \<le> of_int n"
  shows "rne z \<le> n"
proof (cases "z = of_int n")
  case True
  then show ?thesis by (simp add: rne_unfold)
next
  case False
  with assms have "z < of_int n" by simp
  then have "\<lfloor>z\<rfloor> < n" by (simp add: floor_less_iff)
  then show ?thesis unfolding rne_unfold by auto
qed

lemma expo_down_le: "expo_down e x \<le> e"
proof (induction e x rule: expo_down.induct)
  case (1 e x)
  show ?case
  proof (cases "1 \<le> x \<or> e \<le> - 1022")
    case True
    then show ?thesis by (subst expo_down.simps) simp
  next
    case False
    then have "expo_down e x = expo_down (e - 1) (2 * x)" by (subst expo_down.simps) simp
    moreover have "expo_down (e - 1) (2 * x) \<le> e - 1" using False by (intro "1.IH") simp_all
    ultimately show ?thesis by simp
  qed
qed

lemma exponent_small: "0 < a \<Longrightarrow> a < 2 \<Longrightarrow> exponent a \<le> 0"
  using expo_down_le [of 0 a] by (simp add: exponent_def expo_up.simps)


text \<open>
  Rounding a number of magnitude at most 2: the result is a finite double of magnitude at
  most 2, of the same sign, at most \<open>2\<^sup>-\<^sup>5\<^sup>3\<close> away.
\<close>

lemma round_to_double_pos:
  assumes "0 < x" and "x \<le> 2"
  shows "\<exists>y. round_to_double x = Finite y \<and> 0 \<le> y \<and> y \<le> 2 \<and> \<bar>y - x\<bar> \<le> 1 / 2 ^ 53"
proof (cases "x = 2")
  case True
  have "round_to_double 2 = Finite 2" by (simp add: f64_eval)
  with True show ?thesis by simp
next
  case False
  with assms have lt: "x < 2" by simp
  define e where "e = exponent x"
  define q :: real where "q = 2 powi (e - 52)"
  define m where "m = rne (x / q)"
  have e: "e \<le> 0" unfolding e_def using assms(1) lt by (rule exponent_small)
  have q: "0 < q" by (simp add: q_def)
  have "q \<le> 2 powi (- 52)" unfolding q_def using e by (intro power_int_increasing) simp_all
  then have q52: "q \<le> 1 / 2 ^ 52" by (simp add: power_int_minus divide_simps)
  have "2 / q = 2 powi (53 - e)" by (simp add: q_def power_int_diff power_int_minus_left field_simps)
  also have "\<dots> = of_int (2 ^ nat (53 - e))" using e by (simp add: power_int_def)
  finally have int: "2 / q = of_int (2 ^ nat (53 - e))" .
  have "x / q \<le> 2 / q" using lt q by (simp add: divide_right_mono)
  then have "m \<le> 2 ^ nat (53 - e)" unfolding m_def int by (rule rne_le_int)
  then have "of_int m \<le> 2 / q" unfolding int by simp
  then have le2: "of_int m * q \<le> 2" using q by (simp add: pos_le_divide_eq)
  have m0: "0 \<le> m" unfolding m_def using assms(1) q by (intro rne_nonneg) simp
  have "of_int m * q - x = q * (of_int m - x / q)"
    using q by (simp add: right_diff_distrib)
  then have "\<bar>of_int m * q - x\<bar> = q * \<bar>of_int m - x / q\<bar>"
    using q by (simp add: abs_mult)
  also have "\<dots> \<le> q * (1 / 2)" unfolding m_def by (intro mult_left_mono rne_error) (use q in simp)
  also have "\<dots> \<le> 1 / 2 ^ 53" using q52 by simp
  finally have err: "\<bar>of_int m * q - x\<bar> \<le> 1 / 2 ^ 53" .
  have "round_to_double x = Finite (of_int m * q)"
    unfolding round_to_double_unfold m_def q_def e_def using assms(1) le2
    by (simp add: m_def q_def e_def not_le)
  with m0 q le2 err show ?thesis by simp
qed

lemma round_to_double_minus: "round_to_double (- x) = dneg (round_to_double x)"
  by (simp add: round_to_double_unfold)

lemma round_to_double_small:
  assumes "\<bar>x\<bar> \<le> 2"
  shows "\<exists>y. round_to_double x = Finite y \<and> \<bar>y\<bar> \<le> 2 \<and> \<bar>y - x\<bar> \<le> 1 / 2 ^ 53
           \<and> (0 \<le> x \<longrightarrow> 0 \<le> y) \<and> (x \<le> 0 \<longrightarrow> y \<le> 0)"
proof -
  consider "x = 0" | "0 < x" | "x < 0" by linarith
  then show ?thesis
  proof cases
    case 1
    then show ?thesis by (simp add: round_to_double_unfold)
  next
    case 2
    with assms obtain y where "round_to_double x = Finite y" "0 \<le> y" "y \<le> 2" "\<bar>y - x\<bar> \<le> 1 / 2 ^ 53"
      using round_to_double_pos [of x] by auto
    with 2 show ?thesis by auto
  next
    case 3
    with assms obtain y where y: "round_to_double (- x) = Finite y" "0 \<le> y" "y \<le> 2"
      "\<bar>y - (- x)\<bar> \<le> 1 / 2 ^ 53"
      using round_to_double_pos [of "- x"] by auto
    have "round_to_double x = dneg (round_to_double (- x))"
      using round_to_double_minus [of "- x"] by simp
    then have "round_to_double x = Finite (- y)" by (simp add: y(1))
    moreover have "\<bar>- y - x\<bar> = \<bar>y - (- x)\<bar>" by (simp add: abs_if)
    then have "\<bar>- y - x\<bar> \<le> 1 / 2 ^ 53" using y(4) by (simp only:)
    ultimately show ?thesis using y(2,3) 3 by auto
  qed
qed

lemma fl_small:
  assumes "\<bar>x\<bar> \<le> 2"
  shows "round_to_double x = Finite (fl x)" and "\<bar>fl x - x\<bar> \<le> 1 / 2 ^ 53" and "\<bar>fl x\<bar> \<le> 2"
    and "0 \<le> x \<Longrightarrow> 0 \<le> fl x"
  using round_to_double_small [OF assms] by (auto simp: fl_def)

lemma dadd_small: "\<bar>a + b\<bar> \<le> 2 \<Longrightarrow> dadd (Finite a) (Finite b) = Finite (fl (a + b))"
  by (simp add: fl_small)

lemma dsub_small: "\<bar>a - b\<bar> \<le> 2 \<Longrightarrow> dsub (Finite a) (Finite b) = Finite (fl (a - b))"
  by (simp add: dsub_def fl_small)

lemma dmul_small: "\<bar>a * b\<bar> \<le> 2 \<Longrightarrow> dmul (Finite a) (Finite b) = Finite (fl (a * b))"
  by (simp add: fl_small)

lemma int_truediv_small:
  "b \<noteq> 0 \<Longrightarrow> \<bar>real_of_int a / real_of_int b\<bar> \<le> 2 \<Longrightarrow>
   int_truediv a b = Inr (Finite (fl (real_of_int a / real_of_int b)))"
  by (simp add: int_truediv_def fl_small)

lemma float_div_int_small:
  "0 < n \<Longrightarrow> n \<le> 2 ^ 53 \<Longrightarrow> \<bar>a / real n\<bar> \<le> 2 \<Longrightarrow>
   float_div_int (Finite a) (int n) = Inr (Finite (fl (a / real n)))"
  by (simp add: float_div_int_def float_of_int_def fl_small)

lemma sum_list_close:
  fixes f g :: "'a \<Rightarrow> real"
  assumes "\<And>x. x \<in> set xs \<Longrightarrow> \<bar>f x - g x\<bar> \<le> c"
  shows "\<bar>(\<Sum>x \<leftarrow> xs. f x) - (\<Sum>x \<leftarrow> xs. g x)\<bar> \<le> real (length xs) * c"
  using assms
proof (induction xs)
  case Nil
  then show ?case by simp
next
  case (Cons x xs)
  have "\<bar>f x - g x\<bar> \<le> c" using Cons.prems by simp
  moreover have "\<bar>(\<Sum>x \<leftarrow> xs. f x) - (\<Sum>x \<leftarrow> xs. g x)\<bar> \<le> real (length xs) * c"
    using Cons.prems by (intro Cons.IH) simp
  ultimately show ?case by (simp add: algebra_simps)
qed

lemma length_links_le:
  assumes "distinct ks" and "set (list_of_dlist links) \<subseteq> set ks"
  shows "Dlist.length links \<le> length ks"
proof -
  have "Dlist.length links = card (set (list_of_dlist links))"
    by (simp add: dlist_length_eq distinct_card)
  also have "\<dots> \<le> card (set ks)" using assms(2) by (intro card_mono) simp_all
  also have "\<dots> = length ks" using assms(1) by (simp add: distinct_card)
  finally show ?thesis .
qed

lemma div_nat_bounds:
  assumes "0 \<le> a" and "0 < n"
  shows "0 \<le> a / real n" and "a / real n \<le> a"
proof -
  show "0 \<le> a / real n" using assms by simp
  have "1 \<le> real n" using assms(2) by simp
  then have "a / real n \<le> a / 1" using assms(1) by (intro frac_le) simp_all
  then show "a / real n \<le> a" by simp
qed

text \<open>What \<open>transition_model_f64\<close> returns, with the rounding of every operation.\<close>

lemma transition_model_f64_value:
  assumes dist: "distinct (keys corpus)"
    and page: "dict_get corpus page = Inr links"
    and closed: "set (list_of_dlist links) \<subseteq> set (keys corpus)"
    and d: "0 \<le> d" "d \<le> 1" and size: "length corpus \<le> 2 ^ 53"
  shows "transition_model_f64 corpus page (Finite d) =
           Inr (map (\<lambda>p. (p, Finite
                  (if Dlist.null links then fl (1 / real (length corpus))
                   else if Dlist.member links p
                     then fl (fl (fl (1 - d) / real (length corpus)) + fl (d / real (Dlist.length links)))
                     else fl (fl (1 - d) / real (length corpus)))))
                  (keys corpus))"
proof -
  let ?N = "length corpus"
  let ?u = "1 / 2 ^ 53 :: real"
  from page dist have "(page, links) \<in> set corpus" by (simp add: dict_get_Inr_iff)
  then have N: "0 < ?N" by auto
  then have N1: "1 \<le> real ?N" by (cases corpus) simp_all
  have fill: "for_each (keys corpus) (\<lambda>p pd. Inr (dict_set pd p v)) []
                = Inr (map (\<lambda>p. (p, v)) (keys corpus))" for v :: double
    using for_each_fill [OF dist, of "[]" v] by (simp add: keys_def)
  show ?thesis
  proof (cases "Dlist.null links")
    case True
    have "1 / real ?N \<le> 1" using div_nat_bounds(2) [OF _ N, of 1] by simp
    then have "\<bar>real_of_int 1 / real_of_int (int ?N)\<bar> \<le> 2" by simp
    then have "int_truediv 1 (int ?N) = Inr (Finite (fl (1 / real ?N)))"
      using N int_truediv_small [of "int ?N" 1] by simp
    with True show ?thesis by (simp add: transition_model_f64_def page fill)
  next
    case False
    let ?L = "Dlist.length links"
    let ?b1 = "fl (1 - d)"
    let ?b = "fl (?b1 / real ?N)"
    let ?inc = "fl (d / real ?L)"
    from False have L: "0 < ?L" by (simp add: dlist_null_iff dlist_length_eq)
    then have L1: "1 \<le> real ?L" by simp
    have "?L \<le> length (keys corpus)" using dist closed by (rule length_links_le)
    then have Lsize: "?L \<le> 2 ^ 53" using size by simp
    have one: "\<bar>1 - d\<bar> \<le> 2" using d by simp
    have b1: "0 \<le> ?b1" "\<bar>?b1 - (1 - d)\<bar> \<le> ?u" using fl_small [OF one] d by simp_all
    have "0 \<le> ?b1 / real ?N" "?b1 / real ?N \<le> ?b1" using b1(1) N by (rule div_nat_bounds)+
    moreover have "?b1 \<le> 1 - d + ?u" using b1(2) by linarith
    ultimately have q1: "0 \<le> ?b1 / real ?N" "?b1 / real ?N \<le> 1 - d + ?u" by simp_all
    then have q1': "\<bar>?b1 / real ?N\<bar> \<le> 2" using d by simp
    have b: "0 \<le> ?b" "\<bar>?b - ?b1 / real ?N\<bar> \<le> ?u" using fl_small [OF q1'] q1(1) by simp_all
    have "0 \<le> d / real ?L" "d / real ?L \<le> d" using d(1) L by (rule div_nat_bounds)+
    then have q2: "0 \<le> d / real ?L" "d / real ?L \<le> d" "\<bar>d / real ?L\<bar> \<le> 2" using d by simp_all
    have inc: "0 \<le> ?inc" "\<bar>?inc - d / real ?L\<bar> \<le> ?u" using fl_small [OF q2(3)] q2(1) by simp_all
    have "?b \<le> 1 - d + 2 * ?u" using b(2) q1(2) by linarith
    moreover have "?inc \<le> d + ?u" using inc(2) q2(2) by linarith
    ultimately have sum: "\<bar>?b + ?inc\<bar> \<le> 2" using b(1) inc(1) by simp
    have sub: "dsub (Finite 1) (Finite d) = Finite ?b1" using one by (rule dsub_small)
    have base: "float_div_int (Finite ?b1) (int ?N) = Inr (Finite ?b)"
      using N size q1' by (rule float_div_int_small)
    have bonus: "float_div_int (Finite d) (int ?L) = Inr (Finite ?inc)"
      using L Lsize q2(3) by (rule float_div_int_small)
    have add: "round_to_double (?b + ?inc) = Finite (fl (?b + ?inc))"
      using sum by (rule fl_small(1))
    let ?base = "map (\<lambda>p. (p, Finite ?b)) (keys corpus)"
    have kb: "keys ?base = keys corpus" by (simp add: keys_def comp_def)
    have "for_each (list_of_dlist links)
            (\<lambda>link pd. bind_err (dict_get pd link) (\<lambda>old.
               bind_err (float_div_int (Finite d) (int ?L)) (\<lambda>inc. Inr (dict_set pd link (dadd old inc)))))
            ?base
          = Inr (map (\<lambda>(p, w). (p, if p \<in> set (list_of_dlist links) then dadd w (Finite ?inc) else w)) ?base)"
      using kb dist closed
      by (intro for_each_modify [where K = "keys corpus"]) (simp_all add: bonus)
    then show ?thesis
      using False
      by (simp add: transition_model_f64_def page sub base fill add dlist_member_iff comp_def)
  qed
qed

text \<open>The rounded entry of the transition model is within four units of the exact one.\<close>

lemma transition_entry_error:
  assumes d: "0 \<le> d" "d \<le> 1" and N: "0 < N" and L: "0 < L"
  shows "\<bar>fl (1 / real N) - 1 / real N\<bar> \<le> 1 / 2 ^ 53"
    and "\<bar>fl (fl (1 - d) / real N) - (1 - d) / real N\<bar> \<le> 2 / 2 ^ 53"
    and "\<bar>fl (fl (fl (1 - d) / real N) + fl (d / real L)) - ((1 - d) / real N + d / real L)\<bar>
           \<le> 4 / 2 ^ 53"
    and "0 \<le> fl (1 / real N)" and "0 \<le> fl (fl (1 - d) / real N)"
    and "0 \<le> fl (fl (fl (1 - d) / real N) + fl (d / real L))"
proof -
  let ?u = "1 / 2 ^ 53 :: real"
  let ?b1 = "fl (1 - d)"
  let ?b = "fl (?b1 / real N)"
  let ?inc = "fl (d / real L)"
  have "0 \<le> 1 / real N" "1 / real N \<le> 1" using div_nat_bounds [OF _ N, of 1] by simp_all
  then have n: "\<bar>1 / real N\<bar> \<le> 2" by simp
  show "\<bar>fl (1 / real N) - 1 / real N\<bar> \<le> ?u" using n by (rule fl_small(2))
  show "0 \<le> fl (1 / real N)" using fl_small(4) [OF n] by simp
  have one: "\<bar>1 - d\<bar> \<le> 2" using d by simp
  have b1: "0 \<le> ?b1" "\<bar>?b1 - (1 - d)\<bar> \<le> ?u" using fl_small [OF one] d by simp_all
  have "0 \<le> ?b1 / real N" "?b1 / real N \<le> ?b1" using b1(1) N by (rule div_nat_bounds)+
  moreover have "?b1 \<le> 1 - d + ?u" using b1(2) by linarith
  ultimately have q1: "0 \<le> ?b1 / real N" "?b1 / real N \<le> 1 - d + ?u" by simp_all
  then have q1': "\<bar>?b1 / real N\<bar> \<le> 2" using d by simp
  have b: "0 \<le> ?b" "\<bar>?b - ?b1 / real N\<bar> \<le> ?u" using fl_small [OF q1'] q1(1) by simp_all
  show "0 \<le> ?b" by (rule b(1))
  have "\<bar>?b1 / real N - (1 - d) / real N\<bar> = \<bar>?b1 - (1 - d)\<bar> / real N"
    by (simp add: diff_divide_distrib [symmetric])
  also have "\<dots> \<le> \<bar>?b1 - (1 - d)\<bar>" using div_nat_bounds(2) [OF _ N] by simp
  finally have e1: "\<bar>?b1 / real N - (1 - d) / real N\<bar> \<le> ?u" using b1(2) by linarith
  show e2: "\<bar>?b - (1 - d) / real N\<bar> \<le> 2 / 2 ^ 53" using e1 b(2) by linarith
  have "0 \<le> d / real L" "d / real L \<le> d" using d(1) L by (rule div_nat_bounds)+
  then have q2: "0 \<le> d / real L" "d / real L \<le> d" "\<bar>d / real L\<bar> \<le> 2" using d by simp_all
  have inc: "0 \<le> ?inc" "\<bar>?inc - d / real L\<bar> \<le> ?u" using fl_small [OF q2(3)] q2(1) by simp_all
  have "?b \<le> 1 - d + 2 * ?u" using b(2) q1(2) by linarith
  moreover have "?inc \<le> d + ?u" using inc(2) q2(2) by linarith
  ultimately have sum: "\<bar>?b + ?inc\<bar> \<le> 2" using b(1) inc(1) by simp
  have s: "\<bar>fl (?b + ?inc) - (?b + ?inc)\<bar> \<le> ?u" using sum by (rule fl_small(2))
  show "0 \<le> fl (?b + ?inc)" using fl_small(4) [OF sum] b(1) inc(1) by simp
  show "\<bar>fl (?b + ?inc) - ((1 - d) / real N + d / real L)\<bar> \<le> 4 / 2 ^ 53"
    using s e2 inc(2) by linarith
qed

subsection \<open>The transition model is a probability distribution up to rounding\<close>

text \<open>
  C1, as the code computes it. For a corpus graph of at most \<open>2\<^sup>5\<^sup>3\<close> pages, a page that is
  a key of it with link set \<open>links\<close>, and a damping factor \<open>d\<close> in [0, 1],
  \<open>transition_model\<close> returns an entry for every page of the corpus. When \<open>links\<close> is
  empty every page gets the double nearest to 1/N, where N is the number of pages;
  otherwise every page gets the base \<open>fl (fl (1 - d) / N)\<close>, the quotient of two rounded
  operations, and a page in \<open>links\<close> gets the rounded sum of the base and
  \<open>fl (d / |links|)\<close>. Every entry is a finite, non-negative double, and the entries sum
  to 1 up to \<open>4 N / 2\<^sup>5\<^sup>3\<close>.
\<close>

theorem transition_model_f64_distribution:
  assumes "distinct (keys corpus)" and "links_closed corpus"
    and "dict_get corpus page = Inr links"
    and "0 \<le> d" and "d \<le> 1" and "length corpus \<le> 2 ^ 53"
  shows "\<exists>pd. transition_model_f64 corpus page (Finite d) = Inr pd
           \<and> keys pd = keys corpus
           \<and> (\<forall>p \<in> set (keys corpus).
                 dict_get pd p =
                   Inr (Finite
                     (if Dlist.null links then fl (1 / real (length corpus))
                      else if Dlist.member links p
                        then fl (fl (fl (1 - d) / real (length corpus))
                                 + fl (d / real (Dlist.length links)))
                        else fl (fl (1 - d) / real (length corpus)))))
           \<and> (\<forall>w \<in> set (dict_values pd). \<exists>v. w = Finite v \<and> 0 \<le> v)
           \<and> \<bar>(\<Sum>w \<leftarrow> dict_values pd. value_of w) - 1\<bar> \<le> 4 * real (length corpus) / 2 ^ 53"
proof -
  let ?N = "length corpus"
  let ?L = "Dlist.length links"
  define g where "g = (\<lambda>p. if Dlist.null links then fl (1 / real ?N)
                 else if Dlist.member links p
                   then fl (fl (fl (1 - d) / real ?N) + fl (d / real ?L))
                   else fl (fl (1 - d) / real ?N))"
  define f where "f = (\<lambda>p. if Dlist.null links then 1 / real ?N
                 else (1 - d) / real ?N + (if Dlist.member links p then d / real ?L else 0))"
  let ?pd = "map (\<lambda>p. (p, Finite (g p))) (keys corpus)"
  let ?id = "map (\<lambda>p. (p, f p)) (keys corpus)"
  have member: "(page, links) \<in> set corpus"
    using assms(1,3) by (simp add: dict_get_Inr_iff)
  then have closed: "set (list_of_dlist links) \<subseteq> set (keys corpus)"
    using assms(2) by (auto simp: links_closed_def)
  from member have N: "0 < ?N" by (cases corpus) auto
  have L: "0 < ?L" if "\<not> Dlist.null links"
    using that by (simp add: dlist_null_iff dlist_length_eq)
  have len: "length (keys corpus) = ?N" by (simp add: keys_def)
  have run: "transition_model_f64 corpus page (Finite d) = Inr ?pd"
    unfolding g_def using assms(1,3) closed assms(4,5,6) by (rule transition_model_f64_value)
  have ks: "keys ?pd = keys corpus" by (simp add: keys_def comp_def)
  have get: "dict_get ?pd p = Inr (Finite (g p))" if "p \<in> set (keys corpus)" for p
    using that assms(1) by (intro dict_get_present) (simp_all add: ks)
  have nonneg: "0 \<le> g p" for p
  proof (cases "Dlist.null links")
    case True
    then show ?thesis using transition_entry_error(4) [OF assms(4,5) N N] by (simp add: g_def)
  next
    case False
    then show ?thesis
      using transition_entry_error(5,6) [OF assms(4,5) N L [OF False]] by (simp add: g_def)
  qed
  have close: "\<bar>g p - f p\<bar> \<le> 4 / 2 ^ 53" for p
  proof (cases "Dlist.null links")
    case True
    then show ?thesis using transition_entry_error(1) [OF assms(4,5) N N] by (simp add: g_def f_def)
  next
    case False
    then show ?thesis
      using transition_entry_error(2,3) [OF assms(4,5) N L [OF False]] by (simp add: g_def f_def)
  qed
  have ideal: "transition_model corpus page d = Inr ?id"
    unfolding f_def using assms(1,3) closed by (rule transition_model_value)
  have "sum_list (dict_values ?id) = 1"
    using transition_model_total [OF assms(1,3) closed, of d] ideal by auto
  then have total: "(\<Sum>p \<leftarrow> keys corpus. f p) = 1" by (simp add: dict_values_def comp_def)
  have "\<bar>(\<Sum>p \<leftarrow> keys corpus. g p) - (\<Sum>p \<leftarrow> keys corpus. f p)\<bar>
          \<le> real (length (keys corpus)) * (4 / 2 ^ 53)"
    using close by (intro sum_list_close) simp
  then have "\<bar>(\<Sum>p \<leftarrow> keys corpus. g p) - 1\<bar> \<le> 4 * real ?N / 2 ^ 53"
    by (simp add: total len)
  moreover have "(\<Sum>w \<leftarrow> dict_values ?pd. value_of w) = (\<Sum>p \<leftarrow> keys corpus. g p)"
    by (simp add: dict_values_def comp_def)
  ultimately have sum: "\<bar>(\<Sum>w \<leftarrow> dict_values ?pd. value_of w) - 1\<bar> \<le> 4 * real ?N / 2 ^ 53"
    by simp
  have "\<forall>w \<in> set (dict_values ?pd). \<exists>v. w = Finite v \<and> 0 \<le> v"
    using nonneg by (auto simp: dict_values_def)
  with run ks get sum show ?thesis unfolding g_def by blast
qed

theorem transition_model_f64_distribution_witness:
  "\<exists>pd. transition_model_f64
            [(''1.html'', dlist_of_list [''2.html'', ''3.html'']), (''2.html'', dlist_of_list []),
             (''3.html'', dlist_of_list [''1.html''])] ''1.html'' (Finite (7656119366529843 / 2 ^ 53)) = Inr pd
     \<and> keys pd = [''1.html'', ''2.html'', ''3.html'']
     \<and> dict_get pd ''1.html'' = Inr (Finite (7205759403792795 / 2 ^ 57))
     \<and> dict_get pd ''2.html'' = Inr (Finite (4278419646001971 / 2 ^ 53))
     \<and> (\<forall>w \<in> set (dict_values pd). \<exists>v. w = Finite v \<and> 0 \<le> v)
     \<and> \<bar>(\<Sum>w \<leftarrow> dict_values pd. value_of w) - 1\<bar> \<le> 12 / 2 ^ 53"
  using transition_model_f64_distribution
    [of "[(''1.html'', dlist_of_list [''2.html'', ''3.html'']), (''2.html'', dlist_of_list []),
          (''3.html'', dlist_of_list [''1.html''])]" "''1.html''" "dlist_of_list [''2.html'', ''3.html'']"
        "7656119366529843 / 2 ^ 53"]
  apply (simp add: keys_def links_closed_def dict_get_def dlist_null_iff dlist_member_iff dlist_length_eq
      fl_def f64_eval)
  apply (elim exE conjE)
  apply (intro exI conjI; assumption)
  done

text \<open>
  The entries are not exactly 1/N and do not sum to exactly 1: for six pages without
  links each entry is the double \<open>6004799503160661 / 2\<^sup>5\<^sup>5\<close>, which is below 1/6, and the
  six entries sum to \<open>1 - 2\<^sup>-\<^sup>5\<^sup>4\<close>.
\<close>

theorem transition_model_f64_not_exact:
  "\<exists>pd. transition_model_f64
     [(''1.html'', dlist_of_list []), (''2.html'', dlist_of_list []), (''3.html'', dlist_of_list []),
      (''4.html'', dlist_of_list []), (''5.html'', dlist_of_list []), (''6.html'', dlist_of_list [])]
     ''1.html'' (round_to_double (85 / 100)) = Inr pd
   \<and> dict_get pd ''1.html'' = Inr (Finite (6004799503160661 / 2 ^ 55))
   \<and> (\<Sum>w \<leftarrow> dict_values pd. value_of w) = 1 - 1 / 2 ^ 54"
  unfolding six_transition by (simp add: dict_get_def dict_values_def)

subsection \<open>One pass of the iteration in double precision: the numbers\<close>

text \<open>
  Adding \<open>n\<close> non-negative numbers one by one, with a rounding after each addition, is off
  by at most \<open>n\<close> units of \<open>2\<^sup>-\<^sup>5\<^sup>3\<close> as long as the sums stay below 2.
\<close>

lemma fsum_error:
  assumes "\<forall>t \<in> set ts. 0 \<le> t" and "0 \<le> s"
    and "s + sum_list ts + real (length ts) / 2 ^ 53 \<le> 2"
  shows "0 \<le> fsum s ts \<and> \<bar>fsum s ts - (s + sum_list ts)\<bar> \<le> real (length ts) / 2 ^ 53"
  using assms
proof (induction ts arbitrary: s)
  case Nil
  then show ?case by simp
next
  case (Cons t ts)
  let ?u = "1 / 2 ^ 53 :: real"
  let ?s = "fl (s + t)"
  have t: "0 \<le> t" and ts: "\<forall>t \<in> set ts. 0 \<le> t" using Cons.prems(1) by simp_all
  have rest: "0 \<le> sum_list ts" using ts by (intro sum_list_nonneg) simp
  have len: "real (length (t # ts)) / 2 ^ 53 = real (length ts) / 2 ^ 53 + ?u"
    by (simp add: add_divide_distrib)
  have bound: "s + t + sum_list ts + real (length ts) / 2 ^ 53 + ?u \<le> 2"
    using Cons.prems(3) unfolding len by simp
  have "0 \<le> real (length ts) / 2 ^ 53" by simp
  then have small: "\<bar>s + t\<bar> \<le> 2" using bound rest t Cons.prems(2) by simp
  have r: "\<bar>?s - (s + t)\<bar> \<le> ?u" "0 \<le> ?s"
    using fl_small(2,4) [OF small] t Cons.prems(2) by simp_all
  have "?s + sum_list ts + real (length ts) / 2 ^ 53 \<le> 2" using r(1) bound by linarith
  with ts r(2) have IH: "0 \<le> fsum ?s ts"
    "\<bar>fsum ?s ts - (?s + sum_list ts)\<bar> \<le> real (length ts) / 2 ^ 53"
    using Cons.IH [of ?s] by simp_all
  have "\<bar>fsum ?s ts - (s + (t + sum_list ts))\<bar> \<le> real (length ts) / 2 ^ 53 + ?u"
    using IH(2) r(1) by linarith
  with IH(1) show ?case unfolding len by simp
qed

lemma weight_le_one:
  assumes "0 < N"
  shows "weight N p links \<le> 1"
proof (cases "Dlist.null links")
  case True
  then show ?thesis using div_nat_bounds(2) [OF _ assms, of 1] by (simp add: weight_def)
next
  case False
  then have "0 < Dlist.length links" by (simp add: dlist_null_iff dlist_length_eq)
  then show ?thesis using False div_nat_bounds(2) [of 1 "Dlist.length links"] by (simp add: weight_def)
qed

lemma sum_list_pairs_keys: "(\<Sum>(q, links) \<leftarrow> corpus. x q) = (\<Sum>q \<leftarrow> keys corpus. x q)"
  by (induction corpus) (auto simp: keys_def)

text \<open>The exact sum that a page receives is at most the sum of all ranks.\<close>

lemma received_le_total:
  assumes ne: "corpus \<noteq> []" and nonneg: "\<forall>q \<in> set (keys corpus). 0 \<le> x q"
  shows "(\<Sum>(q, links) \<leftarrow> corpus. x q * weight (length corpus) p links) \<le> (\<Sum>q \<leftarrow> keys corpus. x q)"
    and "0 \<le> (\<Sum>(q, links) \<leftarrow> corpus. x q * weight (length corpus) p links)"
proof -
  let ?N = "length corpus"
  have N: "0 < ?N" using ne by simp
  have "(\<Sum>(q, links) \<leftarrow> corpus. x q * weight ?N p links) \<le> (\<Sum>(q, links) \<leftarrow> corpus. x q)"
  proof (rule sum_list_mono)
    fix e assume e: "e \<in> set corpus"
    obtain q links where ql: "e = (q, links)" by (cases e)
    have "0 \<le> x q" using e nonneg ql by (force simp: keys_def)
    moreover have "weight ?N p links \<le> 1" using N by (rule weight_le_one)
    ultimately have "x q * weight ?N p links \<le> x q * 1" by (intro mult_left_mono)
    then show "(case e of (q, links) \<Rightarrow> x q * weight ?N p links) \<le> (case e of (q, links) \<Rightarrow> x q)"
      by (simp add: ql)
  qed
  then show "(\<Sum>(q, links) \<leftarrow> corpus. x q * weight ?N p links) \<le> (\<Sum>q \<leftarrow> keys corpus. x q)"
    by (simp only: sum_list_pairs_keys)
  show "0 \<le> (\<Sum>(q, links) \<leftarrow> corpus. x q * weight ?N p links)"
  proof (rule sum_list_nonneg)
    fix v assume "v \<in> set (map (\<lambda>(q, links). x q * weight ?N p links) corpus)"
    then obtain q links where e: "(q, links) \<in> set corpus" and v: "v = x q * weight ?N p links"
      by auto
    have "0 \<le> x q" using e nonneg by (force simp: keys_def)
    then show "0 \<le> v" unfolding v using weight_nonneg by (intro mult_nonneg_nonneg)
  qed
qed

lemma member_le_total:
  fixes x :: "'a \<Rightarrow> real"
  assumes "\<forall>q \<in> set ks. 0 \<le> x q" and "p \<in> set ks"
  shows "x p \<le> (\<Sum>q \<leftarrow> ks. x q)"
  using assms
proof (induction ks)
  case Nil
  then show ?case by simp
next
  case (Cons k ks)
  have rest: "0 \<le> (\<Sum>q \<leftarrow> ks. x q)" using Cons.prems(1) by (intro sum_list_nonneg) auto
  show ?case
  proof (cases "p = k")
    case True
    then show ?thesis using rest by simp
  next
    case False
    then have "x p \<le> (\<Sum>q \<leftarrow> ks. x q)" using Cons by simp
    moreover have "0 \<le> x k" using Cons.prems(1) by simp
    ultimately show ?thesis by simp
  qed
qed

text \<open>
  The share that a page passes on, rounded: the divisor is the number of its links, or the
  number of pages when it has none.
\<close>

lemma share_error:
  assumes r: "0 \<le> r" "r \<le> 2" and N: "0 < N"
  shows "0 \<le> fl (r / (if \<not> Dlist.null links then real (Dlist.length links) else real N))"
    and "\<bar>fl (r / (if \<not> Dlist.null links then real (Dlist.length links) else real N))
          - r / (if \<not> Dlist.null links then real (Dlist.length links) else real N)\<bar> \<le> 1 / 2 ^ 53"
    and "\<bar>r / (if \<not> Dlist.null links then real (Dlist.length links) else real N)\<bar> \<le> 2"
    and "0 < (if \<not> Dlist.null links then Dlist.length links else N)"
proof -
  let ?m = "if \<not> Dlist.null links then Dlist.length links else N"
  have m: "0 < ?m" using N by (simp add: dlist_null_iff dlist_length_eq)
  have eq: "(if \<not> Dlist.null links then real (Dlist.length links) else real N) = real ?m" by simp
  have q: "0 \<le> r / real ?m" "r / real ?m \<le> r" using r(1) m by (rule div_nat_bounds)+
  then have small: "\<bar>r / real ?m\<bar> \<le> 2" using r(2) by simp
  show "0 < ?m" by (rule m)
  show "\<bar>r / (if \<not> Dlist.null links then real (Dlist.length links) else real N)\<bar> \<le> 2"
    unfolding eq by (rule small)
  show "0 \<le> fl (r / (if \<not> Dlist.null links then real (Dlist.length links) else real N))"
    unfolding eq using fl_small(4) [OF small] q(1) by simp
  show "\<bar>fl (r / (if \<not> Dlist.null links then real (Dlist.length links) else real N))
          - r / (if \<not> Dlist.null links then real (Dlist.length links) else real N)\<bar> \<le> 1 / 2 ^ 53"
    unfolding eq using small by (rule fl_small(2))
qed

lemma received_filter:
  "(\<Sum>(q, links) \<leftarrow> corpus. x q * weight N p links)
     = (\<Sum>(q, links) \<leftarrow> filter (\<lambda>(q, links). Dlist.member links p \<or> Dlist.null links) corpus.
          x q / (if \<not> Dlist.null links then real (Dlist.length links) else real N))"
  unfolding sum_list_map_filter'
  by (intro arg_cong [where f = sum_list] map_cong) (auto simp: weight_def split: if_splits)

text \<open>
  The rounded total of the shares that a page receives, for non-negative ranks with a sum
  of at most 3/2 on a corpus of at most \<open>2\<^sup>5\<^sup>0\<close> pages.
\<close>

lemma total_f64_error:
  assumes ne: "corpus \<noteq> []" and size: "length corpus \<le> 2 ^ 50"
    and nonneg: "\<forall>q \<in> set (keys corpus). 0 \<le> x q"
    and S: "(\<Sum>q \<leftarrow> keys corpus. x q) \<le> 3 / 2"
  shows "\<forall>t \<in> set (shares corpus x p). 0 \<le> t"
    and "sum_list (shares corpus x p) + real (length (shares corpus x p)) / 2 ^ 53 \<le> 7 / 4"
    and "0 \<le> fsum 0 (shares corpus x p)"
    and "fsum 0 (shares corpus x p) \<le> 7 / 4"
    and "\<bar>fsum 0 (shares corpus x p)
           - (\<Sum>(q, links) \<leftarrow> corpus. x q * weight (length corpus) p links)\<bar>
         \<le> 2 * real (length corpus) / 2 ^ 53"
proof -
  let ?N = "length corpus"
  let ?u = "1 / 2 ^ 53 :: real"
  let ?F = "filter (\<lambda>(q, links). Dlist.member links p \<or> Dlist.null links) corpus"
  let ?den = "\<lambda>links. if \<not> Dlist.null links then real (Dlist.length links) else real ?N"
  let ?W = "(\<Sum>(q, links) \<leftarrow> corpus. x q * weight ?N p links)"
  have N: "0 < ?N" using ne by simp
  have range: "0 \<le> x q \<and> x q \<le> 2" if "(q, links) \<in> set corpus" for q links
  proof -
    have q: "q \<in> set (keys corpus)" using that by (force simp: keys_def)
    then have "x q \<le> (\<Sum>q \<leftarrow> keys corpus. x q)" using nonneg by (intro member_le_total)
    with q nonneg S show ?thesis by auto
  qed
  have sh: "shares corpus x p = map (\<lambda>(q, links). fl (x q / ?den links)) ?F"
    by (simp add: shares_def)
  show pos: "\<forall>t \<in> set (shares corpus x p). 0 \<le> t"
  proof
    fix t assume "t \<in> set (shares corpus x p)"
    then obtain q links where e: "(q, links) \<in> set corpus" and t: "t = fl (x q / ?den links)"
      unfolding sh by auto
    show "0 \<le> t" unfolding t using range [OF e] N by (intro share_error(1)) simp_all
  qed
  have lenF: "length ?F \<le> ?N" by simp
  have "\<bar>(\<Sum>e \<leftarrow> ?F. (case e of (q, links) \<Rightarrow> fl (x q / ?den links)))
          - (\<Sum>e \<leftarrow> ?F. (case e of (q, links) \<Rightarrow> x q / ?den links))\<bar> \<le> real (length ?F) * ?u"
  proof (rule sum_list_close)
    fix e assume "e \<in> set ?F"
    then obtain q links where e: "e = (q, links)" and "(q, links) \<in> set corpus" by auto
    then show "\<bar>(case e of (q, links) \<Rightarrow> fl (x q / ?den links))
                 - (case e of (q, links) \<Rightarrow> x q / ?den links)\<bar> \<le> ?u"
      using range [of q links] share_error(2) [OF _ _ N, of "x q" links] by simp
  qed
  then have close: "\<bar>sum_list (shares corpus x p) - ?W\<bar> \<le> real (length ?F) * ?u"
    unfolding sh received_filter [where corpus = corpus and x = x and N = "length corpus" and p = p] .
  have lenu: "real (length ?F) * ?u \<le> real ?N * ?u"
    using lenF by (intro mult_right_mono) simp_all
  have "real ?N \<le> 2 ^ 50" using size by (metis of_nat_le_iff of_nat_numeral of_nat_power)
  then have Nu: "real ?N * ?u \<le> 1 / 8" by simp
  have W: "?W \<le> 3 / 2" using received_le_total(1) [OF ne nonneg, of p] S by linarith
  have lensh: "length (shares corpus x p) = length ?F" by (simp add: sh)
  have budget: "sum_list (shares corpus x p) + real (length ?F) * ?u \<le> 7 / 4"
    using close lenu Nu W by linarith
  then show b: "sum_list (shares corpus x p) + real (length (shares corpus x p)) / 2 ^ 53 \<le> 7 / 4"
    by (simp add: lensh)
  then have "0 + sum_list (shares corpus x p) + real (length (shares corpus x p)) / 2 ^ 53 \<le> 2"
    by simp
  with pos have f: "0 \<le> fsum 0 (shares corpus x p)"
    "\<bar>fsum 0 (shares corpus x p) - (0 + sum_list (shares corpus x p))\<bar>
       \<le> real (length (shares corpus x p)) / 2 ^ 53"
    using fsum_error [of "shares corpus x p" 0] by simp_all
  show "0 \<le> fsum 0 (shares corpus x p)" by (rule f(1))
  have f2: "\<bar>fsum 0 (shares corpus x p) - sum_list (shares corpus x p)\<bar> \<le> real (length ?F) * ?u"
    using f(2) by (simp add: lensh)
  show "fsum 0 (shares corpus x p) \<le> 7 / 4" using f2 budget by linarith
  have "\<bar>fsum 0 (shares corpus x p) - ?W\<bar> \<le> 2 * (real ?N * ?u)"
    using f2 close lenu by linarith
  then show "\<bar>fsum 0 (shares corpus x p) - ?W\<bar> \<le> 2 * real ?N / 2 ^ 53" by simp
qed

text \<open>
  One pass in double precision is within \<open>(2 N + 4) / 2\<^sup>5\<^sup>3\<close> of the exact pass at every
  page, and its results are non-negative.
\<close>

lemma relax_f64_error:
  assumes ne: "corpus \<noteq> []" and size: "length corpus \<le> 2 ^ 50"
    and d: "0 \<le> d" "d \<le> 1"
    and nonneg: "\<forall>q \<in> set (keys corpus). 0 \<le> x q"
    and S: "(\<Sum>q \<leftarrow> keys corpus. x q) \<le> 3 / 2"
  shows "0 \<le> relax_f64 corpus d x p"
    and "relax_f64 corpus d x p \<le> 2"
    and "\<bar>relax_f64 corpus d x p - relax corpus d x p\<bar> \<le> (2 * real (length corpus) + 4) / 2 ^ 53"
    and "\<bar>d * fsum 0 (shares corpus x p)\<bar> \<le> 2"
    and "\<bar>fl (fl (1 - d) / real (length corpus)) + fl (d * fsum 0 (shares corpus x p))\<bar> \<le> 2"
proof -
  let ?N = "length corpus"
  let ?u = "1 / 2 ^ 53 :: real"
  let ?T = "fsum 0 (shares corpus x p)"
  let ?W = "(\<Sum>(q, links) \<leftarrow> corpus. x q * weight ?N p links)"
  let ?b = "fl (fl (1 - d) / real ?N)"
  let ?m = "fl (d * ?T)"
  have N: "0 < ?N" using ne by simp
  note T = total_f64_error(3,4,5) [OF ne size nonneg S, of p]
  have dT: "0 \<le> d * ?T" using d(1) T(1) by simp
  have "d * ?T \<le> 1 * (7 / 4)" using d T(1,2) by (intro mult_mono) simp_all
  then have dT2: "d * ?T \<le> 7 / 4" by simp
  then show small: "\<bar>d * ?T\<bar> \<le> 2" using dT by simp
  have m: "0 \<le> ?m" "\<bar>?m - d * ?T\<bar> \<le> ?u" using fl_small(2,4) [OF small] dT by simp_all
  have b: "0 \<le> ?b" "\<bar>?b - (1 - d) / real ?N\<bar> \<le> 2 / 2 ^ 53"
    using transition_entry_error(2,5) [OF d N N] by simp_all
  have "0 \<le> 1 - d" using d by simp
  then have base: "(1 - d) / real ?N \<le> 1 - d" using N by (rule div_nat_bounds(2))
  have "d * ?T \<le> d * (7 / 4)" using d(1) T(2) by (intro mult_left_mono)
  then have "(1 - d) + d * ?T \<le> 7 / 4" using d by simp
  then have "?b + ?m \<le> 7 / 4 + 3 * ?u" using b(2) m(2) base by linarith
  then have "?b + ?m \<le> 2" by simp
  then show sum: "\<bar>?b + ?m\<bar> \<le> 2" using b(1) m(1) by simp
  have r: "0 \<le> fl (?b + ?m)" "\<bar>fl (?b + ?m) - (?b + ?m)\<bar> \<le> ?u" "\<bar>fl (?b + ?m)\<bar> \<le> 2"
    using fl_small(2,3,4) [OF sum] b(1) m(1) by simp_all
  show "0 \<le> relax_f64 corpus d x p" using r(1) by (simp add: relax_f64_def)
  show "relax_f64 corpus d x p \<le> 2" using r(3) by (simp add: relax_f64_def)
  have "\<bar>d * ?T - d * ?W\<bar> = d * \<bar>?T - ?W\<bar>"
    using d(1) by (simp add: right_diff_distrib [symmetric] abs_mult)
  also have "\<dots> \<le> 1 * \<bar>?T - ?W\<bar>" using d(2) by (intro mult_right_mono) simp_all
  finally have "\<bar>d * ?T - d * ?W\<bar> \<le> 2 * real ?N / 2 ^ 53" using T(3) by simp
  then have "\<bar>fl (?b + ?m) - ((1 - d) / real ?N + d * ?W)\<bar> \<le> 4 * ?u + 2 * real ?N / 2 ^ 53"
    using r(2) b(2) m(2) by linarith
  then show "\<bar>relax_f64 corpus d x p - relax corpus d x p\<bar> \<le> (2 * real ?N + 4) / 2 ^ 53"
    by (simp add: relax_f64_def relax_def add_divide_distrib)
qed

subsection \<open>One pass of the iteration in double precision: the code\<close>

lemma keys_rank_dict_f64 [simp]: "keys (rank_dict_f64 corpus r) = keys corpus"
  by (simp add: rank_dict_f64_def keys_def comp_def)

lemma dict_get_rank_dict_f64:
  "distinct (keys corpus) \<Longrightarrow> p \<in> set (keys corpus) \<Longrightarrow>
   dict_get (rank_dict_f64 corpus r) p = Inr (Finite (r p))"
proof -
  assume "distinct (keys corpus)" and "p \<in> set (keys corpus)"
  then have "distinct (keys (rank_dict_f64 corpus r))"
    and "(p, Finite (r p)) \<in> set (rank_dict_f64 corpus r)"
    by (simp, simp add: rank_dict_f64_def)
  then show ?thesis by (rule dict_get_present)
qed

lemma rank_range:
  fixes x :: "'a \<Rightarrow> real"
  assumes "\<forall>q \<in> set (keys corpus). 0 \<le> x q" and "(\<Sum>q \<leftarrow> keys corpus. x q) \<le> 3 / 2"
    and "q \<in> set (keys corpus)"
  shows "0 \<le> x q" and "x q \<le> 2"
proof -
  show "0 \<le> x q" using assms(1,3) by simp
  have "x q \<le> (\<Sum>q \<leftarrow> keys corpus. x q)" using assms(1,3) by (rule member_le_total)
  then show "x q \<le> 2" using assms(2) by simp
qed

text \<open>
  A loop that adds a rounded share for some of the entries, in double precision: it
  computes \<open>fsum\<close> as long as the sums stay below 2.
\<close>

lemma for_each_fsum:
  fixes c :: "'a \<Rightarrow> 'b \<Rightarrow> real"
  assumes add: "\<And>q L s. (q, L) \<in> set xs \<Longrightarrow> P q L \<Longrightarrow> \<bar>s + c q L\<bar> \<le> 2
                  \<Longrightarrow> body q (Finite s) = Inr (Finite (fl (s + c q L)))"
    and skip: "\<And>q L s. (q, L) \<in> set xs \<Longrightarrow> \<not> P q L \<Longrightarrow> body q s = Inr s"
    and nonneg: "\<And>q L. (q, L) \<in> set xs \<Longrightarrow> 0 \<le> c q L"
    and "0 \<le> s"
    and "s + sum_list (map (\<lambda>(q, L). c q L) (filter (\<lambda>(q, L). P q L) xs))
           + real (length (filter (\<lambda>(q, L). P q L) xs)) / 2 ^ 53 \<le> 2"
  shows "for_each (map fst xs) body (Finite s)
           = Inr (Finite (fsum s (map (\<lambda>(q, L). c q L) (filter (\<lambda>(q, L). P q L) xs))))"
  using assms
proof (induction xs arbitrary: s)
  case Nil
  then show ?case by simp
next
  case (Cons e xs)
  let ?u = "1 / 2 ^ 53 :: real"
  let ?F = "filter (\<lambda>(q, L). P q L) xs"
  let ?ts = "map (\<lambda>(q, L). c q L) ?F"
  obtain q L where e: "e = (q, L)" by (cases e)
  have rest: "0 \<le> sum_list ?ts"
    using Cons.prems(3) by (intro sum_list_nonneg) auto
  have len: "0 \<le> real (length ?F) / 2 ^ 53" by simp
  have IH: "for_each (map fst xs) body (Finite s') = Inr (Finite (fsum s' ?ts))"
    if s': "0 \<le> s'" "s' + sum_list ?ts + real (length ?F) / 2 ^ 53 \<le> 2" for s'
  proof (rule Cons.IH)
    show "body q (Finite s) = Inr (Finite (fl (s + c q L)))"
      if "(q, L) \<in> set xs" "P q L" "\<bar>s + c q L\<bar> \<le> 2" for q L s
      using that by (intro Cons.prems(1)) simp_all
    show "body q s = Inr s" if "(q, L) \<in> set xs" "\<not> P q L" for q L s
      using that by (intro Cons.prems(2) [of q L]) simp_all
    show "0 \<le> c q L" if "(q, L) \<in> set xs" for q L
      using that by (intro Cons.prems(3)) simp
    show "0 \<le> s'" by (rule s'(1))
    show "s' + sum_list ?ts + real (length ?F) / 2 ^ 53 \<le> 2" by (rule s'(2))
  qed
  show ?case
  proof (cases "P q L")
    case True
    have cq: "0 \<le> c q L" using Cons.prems(3) [of q L] e by simp
    have bound: "s + c q L + sum_list ?ts + real (length ?F) / 2 ^ 53 + ?u \<le> 2"
      using Cons.prems(5) True by (simp add: e add_divide_distrib)
    then have small: "\<bar>s + c q L\<bar> \<le> 2" using rest len cq Cons.prems(4) by simp
    have step: "body q (Finite s) = Inr (Finite (fl (s + c q L)))"
      using small True e by (intro Cons.prems(1)) simp_all
    have r: "\<bar>fl (s + c q L) - (s + c q L)\<bar> \<le> ?u" "0 \<le> fl (s + c q L)"
      using fl_small(2,4) [OF small] cq Cons.prems(4) by simp_all
    have "fl (s + c q L) + sum_list ?ts + real (length ?F) / 2 ^ 53 \<le> 2"
      using r(1) bound by linarith
    with r(2) have "for_each (map fst xs) body (Finite (fl (s + c q L)))
                      = Inr (Finite (fsum (fl (s + c q L)) ?ts))"
      by (rule IH)
    then show ?thesis using True by (simp add: e step)
  next
    case False
    have step: "body q (Finite s) = Inr (Finite s)"
      using False e by (intro Cons.prems(2)) simp_all
    have "s + sum_list ?ts + real (length ?F) / 2 ^ 53 \<le> 2"
      using Cons.prems(5) False by (simp add: e)
    with Cons.prems(4) have "for_each (map fst xs) body (Finite s) = Inr (Finite (fsum s ?ts))"
      by (rule IH)
    then show ?thesis using False by (simp add: e step)
  qed
qed

lemma iterate_total_f64_value:
  assumes dist: "distinct (keys corpus)" and closed: "links_closed corpus"
    and ne: "corpus \<noteq> []" and size: "length corpus \<le> 2 ^ 50"
    and nonneg: "\<forall>q \<in> set (keys corpus). 0 \<le> x q"
    and S: "(\<Sum>q \<leftarrow> keys corpus. x q) \<le> 3 / 2"
  shows "iterate_total_f64 corpus (length corpus) (rank_dict_f64 corpus x) page
           = Inr (Finite (fsum 0 (shares corpus x page)))"
proof -
  let ?N = "length corpus"
  let ?den = "\<lambda>links. if \<not> Dlist.null links then real (Dlist.length links) else real ?N"
  let ?P = "\<lambda>q links. Dlist.member links page \<or> Dlist.null links"
  let ?c = "\<lambda>q links. fl (x q / ?den links)"
  let ?body = "\<lambda>other_page total.
          bind_err (dict_get corpus other_page) (\<lambda>links.
            if Dlist.member links page \<or> Dlist.null links then
              bind_err (dict_get (rank_dict_f64 corpus x) other_page) (\<lambda>rank.
                bind_err
                  (float_div_int rank
                     (if \<not> Dlist.null links then int (Dlist.length links) else int ?N))
                  (\<lambda>share. Inr (dadd total share)))
            else Inr total)"
  have N: "0 < ?N" using ne by simp
  have "(2::nat) ^ 50 \<le> 2 ^ 53" by simp
  with size have size53: "?N \<le> 2 ^ 53" by (rule order_trans)
  have add: "?body q (Finite s) = Inr (Finite (fl (s + ?c q L)))"
    if e: "(q, L) \<in> set corpus" and P: "?P q L" and small: "\<bar>s + ?c q L\<bar> \<le> 2" for q L s
  proof -
    have get: "dict_get corpus q = Inr L" using dist e by (rule dict_get_present)
    have q: "q \<in> set (keys corpus)" using e by (force simp: keys_def)
    have rank: "dict_get (rank_dict_f64 corpus x) q = Inr (Finite (x q))"
      using dist q by (rule dict_get_rank_dict_f64)
    note r = rank_range [OF nonneg S q]
    have sum: "round_to_double (s + ?c q L) = Finite (fl (s + ?c q L))"
      using small by (rule fl_small(1))
    show ?thesis
    proof (cases "Dlist.null L")
      case True
      have "\<bar>x q / real ?N\<bar> \<le> 2" using share_error(3) [OF r N, of L] True by simp
      with N size53 have "float_div_int (Finite (x q)) (int ?N) = Inr (Finite (fl (x q / real ?N)))"
        by (rule float_div_int_small)
      then show ?thesis using True sum by (simp add: get rank)
    next
      case False
      have L: "0 < Dlist.length L" using False by (simp add: dlist_null_iff dlist_length_eq)
      have "set (list_of_dlist L) \<subseteq> set (keys corpus)"
        using closed e by (auto simp: links_closed_def)
      with dist have "Dlist.length L \<le> length (keys corpus)" by (rule length_links_le)
      then have "Dlist.length L \<le> ?N" by simp
      then have Lsize: "Dlist.length L \<le> 2 ^ 53" using size53 by (rule order_trans)
      have "\<bar>x q / real (Dlist.length L)\<bar> \<le> 2" using share_error(3) [OF r N, of L] False by simp
      with L Lsize have "float_div_int (Finite (x q)) (int (Dlist.length L))
                           = Inr (Finite (fl (x q / real (Dlist.length L))))"
        by (rule float_div_int_small)
      then show ?thesis using False P sum by (simp add: get rank)
    qed
  qed
  have skip: "?body q s = Inr s" if e: "(q, L) \<in> set corpus" and P: "\<not> ?P q L" for q L s
  proof -
    have get: "dict_get corpus q = Inr L" using dist e by (rule dict_get_present)
    show ?thesis using P by (simp add: get)
  qed
  have pos: "0 \<le> ?c q L" if e: "(q, L) \<in> set corpus" for q L
  proof -
    have q: "q \<in> set (keys corpus)" using e by (force simp: keys_def)
    show ?thesis using rank_range [OF nonneg S q] N by (rule share_error(1))
  qed
  have sh: "shares corpus x page = map (\<lambda>(q, L). ?c q L) (filter (\<lambda>(q, L). ?P q L) corpus)"
    by (simp add: shares_def)
  have "sum_list (shares corpus x page) + real (length (shares corpus x page)) / 2 ^ 53 \<le> 7 / 4"
    using ne size nonneg S by (rule total_f64_error(2))
  then have bound: "0 + sum_list (map (\<lambda>(q, L). ?c q L) (filter (\<lambda>(q, L). ?P q L) corpus))
                      + real (length (filter (\<lambda>(q, L). ?P q L) corpus)) / 2 ^ 53 \<le> 2"
    unfolding sh by simp
  have "for_each (map fst corpus) ?body (Finite 0)
          = Inr (Finite (fsum 0 (map (\<lambda>(q, L). ?c q L) (filter (\<lambda>(q, L). ?P q L) corpus))))"
    using add skip pos order_refl bound
    by (rule for_each_fsum [where P = "?P" and c = "?c" and xs = corpus and s = 0])
  then show ?thesis unfolding sh [symmetric] by (simp add: iterate_total_f64_def keys_def)
qed

text \<open>One pass of the loop stores \<open>relax_f64\<close> for every page.\<close>

lemma iterate_pass_f64_value:
  assumes dist: "distinct (keys corpus)" and closed: "links_closed corpus"
    and ne: "corpus \<noteq> []" and size: "length corpus \<le> 2 ^ 50"
    and d: "0 \<le> d" "d \<le> 1"
    and nonneg: "\<forall>q \<in> set (keys corpus). 0 \<le> x q"
    and S: "(\<Sum>q \<leftarrow> keys corpus. x q) \<le> 3 / 2"
    and nr: "keys new_rank = keys corpus"
  shows "iterate_pass_f64 corpus (Finite d) (length corpus) (rank_dict_f64 corpus x) new_rank
           = Inr (rank_dict_f64 corpus (relax_f64 corpus d x))"
proof -
  let ?N = "length corpus"
  let ?v = "\<lambda>p. Finite (relax_f64 corpus d x p)"
  let ?body = "\<lambda>page new_rank.
          bind_err (iterate_total_f64 corpus ?N (rank_dict_f64 corpus x) page) (\<lambda>total.
            bind_err (float_div_int (dsub (Finite 1) (Finite d)) (int ?N)) (\<lambda>base.
              Inr (dict_set new_rank page (dadd base (dmul (Finite d) total)))))"
  have N: "0 < ?N" using ne by simp
  have "(2::nat) ^ 50 \<le> 2 ^ 53" by simp
  with size have size53: "?N \<le> 2 ^ 53" by (rule order_trans)
  have one: "\<bar>1 - d\<bar> \<le> 2" using d by simp
  have sub: "dsub (Finite 1) (Finite d) = Finite (fl (1 - d))" using one by (rule dsub_small)
  have b1: "0 \<le> fl (1 - d)" "\<bar>fl (1 - d)\<bar> \<le> 2" using fl_small(3,4) [OF one] d by simp_all
  have "0 \<le> fl (1 - d) / real ?N" "fl (1 - d) / real ?N \<le> fl (1 - d)"
    using b1(1) N by (rule div_nat_bounds)+
  then have "\<bar>fl (1 - d) / real ?N\<bar> \<le> 2" using b1(2) by simp
  with N size53 have base: "float_div_int (Finite (fl (1 - d))) (int ?N)
                              = Inr (Finite (fl (fl (1 - d) / real ?N)))"
    by (rule float_div_int_small)
  have body: "?body k t = Inr (dict_set t k (?v k))" for k t
  proof -
    have total: "iterate_total_f64 corpus ?N (rank_dict_f64 corpus x) k
                   = Inr (Finite (fsum 0 (shares corpus x k)))"
      using dist closed ne size nonneg S by (rule iterate_total_f64_value)
    have mul: "dmul (Finite d) (Finite (fsum 0 (shares corpus x k)))
                 = Finite (fl (d * fsum 0 (shares corpus x k)))"
      using relax_f64_error(4) [OF ne size d nonneg S, of k] by (rule dmul_small)
    have add: "dadd (Finite (fl (fl (1 - d) / real ?N))) (Finite (fl (d * fsum 0 (shares corpus x k))))
                 = Finite (relax_f64 corpus d x k)"
      unfolding relax_f64_def
      using relax_f64_error(5) [OF ne size d nonneg S, of k] by (rule dadd_small)
    show ?thesis by (simp only: total sub base mul add bind_err_Inr)
  qed
  have "for_each (keys corpus) ?body new_rank
          = Inr (map (\<lambda>(p, w). (p, if p \<in> set (keys corpus) then ?v p else w)) new_rank)"
    using nr dist by (intro for_each_assign [where K = "keys corpus"]) (simp_all only: body subset_refl)
  also have "map (\<lambda>(p, w). (p, if p \<in> set (keys corpus) then ?v p else w)) new_rank
               = map (\<lambda>(p, w). (p, ?v p)) new_rank"
    unfolding nr [symmetric] by (rule map_cong) (auto simp: keys_def rev_image_eqI)
  also have "\<dots> = map (\<lambda>p. (p, ?v p)) (map fst new_rank)"
    by (simp add: comp_def case_prod_beta)
  finally have "for_each (keys corpus) ?body new_rank
                  = Inr (map (\<lambda>p. (p, ?v p)) (map fst new_rank))" .
  moreover have "map fst new_rank = keys corpus" using nr by (simp add: keys_def)
  ultimately show ?thesis by (simp only: iterate_pass_f64_def rank_dict_f64_def)
qed

text \<open>The test at the end of a pass, for ranks that differ by at most 2.\<close>

lemma iterate_converged_f64_value:
  assumes dist: "distinct (keys corpus)"
    and range: "\<forall>p \<in> set (keys corpus). \<bar>x' p - x p\<bar> \<le> 2"
  shows "iterate_converged_f64 (rank_dict_f64 corpus x) (rank_dict_f64 corpus x')
           = Inr (settled_f64 corpus x x')"
proof -
  let ?body = "\<lambda>page converged.
          bind_err (dict_get (rank_dict_f64 corpus x') page) (\<lambda>new.
            bind_err (dict_get (rank_dict_f64 corpus x) page) (\<lambda>old.
              Inr (if dless (round_to_double (1 / 1000)) (dabs (dsub new old))
                   then False else converged)))"
  have lit: "round_to_double (1 / 1000) = Finite (fl (1 / 1000))" by (rule fl_small(1)) simp
  have step: "?body p t = Inr (if fl (1 / 1000) < \<bar>fl (x' p - x p)\<bar> then False else t)"
    if p: "p \<in> set (keys corpus)" for p t
  proof -
    have "\<bar>x' p - x p\<bar> \<le> 2" using range p by simp
    then have "dsub (Finite (x' p)) (Finite (x p)) = Finite (fl (x' p - x p))" by (rule dsub_small)
    then show ?thesis by (simp add: dict_get_rank_dict_f64 [OF dist p] lit)
  qed
  have "for_each (keys corpus) ?body True
          = Inr (True \<and> (\<forall>p \<in> set (keys corpus). \<not> fl (1 / 1000) < \<bar>fl (x' p - x p)\<bar>))"
    using step by (rule for_each_flag)
  then show ?thesis by (simp add: iterate_converged_f64_def settled_f64_def)
qed

subsection \<open>The loop in double precision\<close>

lemma iterate_loop_f64_step:
  assumes dist: "distinct (keys corpus)" and closed: "links_closed corpus"
    and ne: "corpus \<noteq> []" and size: "length corpus \<le> 2 ^ 50"
    and d: "0 \<le> d" "d \<le> 1"
    and nonneg: "\<forall>q \<in> set (keys corpus). 0 \<le> x q"
    and S: "(\<Sum>q \<leftarrow> keys corpus. x q) \<le> 3 / 2"
    and nr: "keys new_rank = keys corpus"
  shows "iterate_loop_f64 corpus (Finite d) (length corpus) (rank_dict_f64 corpus x) new_rank
           = (if settled_f64 corpus x (relax_f64 corpus d x)
              then Some (Inr (rank_dict_f64 corpus (relax_f64 corpus d x)))
              else iterate_loop_f64 corpus (Finite d) (length corpus)
                     (rank_dict_f64 corpus (relax_f64 corpus d x))
                     (rank_dict_f64 corpus (relax_f64 corpus d x)))"
proof -
  have pass: "iterate_pass_f64 corpus (Finite d) (length corpus) (rank_dict_f64 corpus x) new_rank
                = Inr (rank_dict_f64 corpus (relax_f64 corpus d x))"
    using assms by (rule iterate_pass_f64_value)
  have "\<forall>p \<in> set (keys corpus). \<bar>relax_f64 corpus d x p - x p\<bar> \<le> 2"
  proof
    fix p assume p: "p \<in> set (keys corpus)"
    note r = rank_range [OF nonneg S p]
    note r' = relax_f64_error(1,2) [OF ne size d nonneg S, of p]
    show "\<bar>relax_f64 corpus d x p - x p\<bar> \<le> 2" using r r' by simp
  qed
  with dist have test: "iterate_converged_f64 (rank_dict_f64 corpus x)
                          (rank_dict_f64 corpus (relax_f64 corpus d x))
                        = Inr (settled_f64 corpus x (relax_f64 corpus d x))"
    by (rule iterate_converged_f64_value)
  show ?thesis by (subst iterate_loop_f64.simps) (simp add: pass test Let_def)
qed

lemma iterate_pagerank_f64_start:
  assumes dist: "distinct (keys corpus)" and ne: "corpus \<noteq> []"
  shows "iterate_pagerank_f64 corpus dd
           = iterate_loop_f64 corpus dd (length corpus)
               (rank_dict_f64 corpus (\<lambda>p. fl (1 / real (length corpus))))
               (rank_dict_f64 corpus (\<lambda>p. 0))"
proof -
  let ?N = "length corpus"
  have N: "0 < ?N" using ne by simp
  have "0 \<le> 1 / real ?N" "1 / real ?N \<le> 1" using div_nat_bounds [OF _ N, of 1] by simp_all
  then have "\<bar>real_of_int 1 / real_of_int (int ?N)\<bar> \<le> 2" by simp
  then have div: "int_truediv 1 (int ?N) = Inr (Finite (fl (1 / real ?N)))"
    using N int_truediv_small [of "int ?N" 1] by simp
  have first: "for_each (keys corpus)
      (\<lambda>page pr. bind_err (int_truediv 1 (int ?N)) (\<lambda>v. Inr (dict_set pr page v))) []
        = Inr (rank_dict_f64 corpus (\<lambda>p. fl (1 / real ?N)))"
    using for_each_fill [OF dist, of "[]" "Finite (fl (1 / real ?N))"]
    by (simp add: div rank_dict_f64_def keys_def)
  have second: "for_each (keys corpus) (\<lambda>page nr. Inr (dict_set nr page (Finite 0))) []
                  = Inr (rank_dict_f64 corpus (\<lambda>p. 0))"
    using for_each_fill [OF dist, of "[]" "Finite 0"] by (simp add: rank_dict_f64_def keys_def)
  show ?thesis by (simp add: iterate_pagerank_f64_def first second Let_def)
qed

text \<open>The ranks that the loop starts from: the double nearest to 1/N for every page.\<close>

lemma start_ranks:
  assumes ne: "corpus \<noteq> []"
  shows "0 \<le> fl (1 / real (length corpus))"
    and "\<bar>fl (1 / real (length corpus)) - 1 / real (length corpus)\<bar> \<le> 1 / 2 ^ 53"
    and "\<bar>(\<Sum>q \<leftarrow> keys corpus. fl (1 / real (length corpus))) - 1\<bar>
           \<le> real (length corpus) / 2 ^ 53"
proof -
  let ?N = "length corpus"
  have N: "0 < ?N" using ne by simp
  show "0 \<le> fl (1 / real ?N)" using transition_entry_error(4) [OF _ _ N N, of 0] by simp
  show e: "\<bar>fl (1 / real ?N) - 1 / real ?N\<bar> \<le> 1 / 2 ^ 53"
    using transition_entry_error(1) [OF _ _ N N, of 0] by simp
  have "\<bar>(\<Sum>q \<leftarrow> keys corpus. fl (1 / real ?N)) - (\<Sum>q \<leftarrow> keys corpus. 1 / real ?N)\<bar>
          \<le> real (length (keys corpus)) * (1 / 2 ^ 53)"
    using e by (intro sum_list_close) simp
  moreover have "(\<Sum>q \<leftarrow> keys corpus. 1 / real ?N) = 1" using N by (simp add: sum_list_triv)
  ultimately show "\<bar>(\<Sum>q \<leftarrow> keys corpus. fl (1 / real ?N)) - 1\<bar> \<le> real ?N / 2 ^ 53" by simp
qed

text \<open>A pass moves every rank by at most 0.001 when it moves it by a little less.\<close>

lemma settled_f64_if_close:
  assumes "\<forall>p \<in> set (keys corpus). \<bar>x' p - x p\<bar> \<le> 1 / 1000 - 2 / 2 ^ 53"
  shows "settled_f64 corpus x x'"
  unfolding settled_f64_def
proof
  fix p assume "p \<in> set (keys corpus)"
  with assms have close: "\<bar>x' p - x p\<bar> \<le> 1 / 1000 - 2 / 2 ^ 53" by simp
  then have "\<bar>x' p - x p\<bar> \<le> 2" by simp
  then have "\<bar>fl (x' p - x p) - (x' p - x p)\<bar> \<le> 1 / 2 ^ 53" by (rule fl_small(2))
  moreover have "\<bar>fl (1 / 1000) - 1 / 1000\<bar> \<le> 1 / 2 ^ 53" by (rule fl_small(2)) simp
  ultimately show "\<not> fl (1 / 1000) < \<bar>fl (x' p - x p)\<bar>" using close by linarith
qed

subsection \<open>Pages without links, in double precision\<close>

lemma shares_all_dangling:
  assumes "\<forall>(page, links) \<in> set corpus. Dlist.null links"
  shows "shares corpus x p = map (\<lambda>(q, links). fl (x q / real (length corpus))) corpus"
proof -
  have "filter (\<lambda>(q, links). Dlist.member links p \<or> Dlist.null links) corpus = corpus"
    using assms by (intro filter_True) auto
  then show ?thesis
    unfolding shares_def using assms by (auto intro!: map_cong)
qed

lemma relax_const_all_dangling:
  assumes ne: "corpus \<noteq> []" and dangling: "\<forall>(page, links) \<in> set corpus. Dlist.null links"
  shows "relax corpus d (\<lambda>p. c) p = (1 - d) / real (length corpus) + d * c"
proof -
  let ?N = "real (length corpus)"
  have N: "?N \<noteq> 0" using ne by simp
  have "(\<Sum>(q, links) \<leftarrow> corpus. c * weight (length corpus) p links)
          = (\<Sum>x \<leftarrow> corpus. c * (1 / ?N))"
    using dangling by (intro arg_cong [where f = sum_list] map_cong) (auto simp: weight_def)
  also have "\<dots> = ?N * (c * (1 / ?N))" by (simp add: sum_list_triv)
  also have "\<dots> = c" using N by simp
  finally show ?thesis by (simp add: relax_def)
qed

text \<open>
  C6, as the code computes it. For a corpus of k pages, \<open>1 \<le> k \<le> 2\<^sup>4\<^sup>0\<close>, in which no page
  has a link, and for every damping factor in [0, 1], the first pass of
  \<open>iterate_pagerank\<close> already meets the convergence test, and the function returns the
  same double \<open>v\<close> for every page. This \<open>v\<close> is within \<open>(2 k + 5) / 2\<^sup>5\<^sup>3\<close> of 1/k; it need
  not be 1/k, nor the double nearest to 1/k.
\<close>

theorem iterate_pagerank_f64_all_dangling:
  assumes "distinct (keys corpus)" and "corpus \<noteq> []" and "length corpus \<le> 2 ^ 40"
    and "\<forall>(page, links) \<in> set corpus. Dlist.null links"
    and "0 \<le> d" and "d \<le> 1"
  shows "\<exists>new_rank v.
           iterate_pass_f64 corpus (Finite d) (length corpus)
             (map (\<lambda>page. (page, Finite (fl (1 / real (length corpus))))) (keys corpus))
             (map (\<lambda>page. (page, Finite 0)) (keys corpus)) = Inr new_rank
         \<and> iterate_converged_f64
             (map (\<lambda>page. (page, Finite (fl (1 / real (length corpus))))) (keys corpus)) new_rank
             = Inr True
         \<and> iterate_pagerank_f64 corpus (Finite d) = Some (Inr new_rank)
         \<and> new_rank = map (\<lambda>page. (page, Finite v)) (keys corpus)
         \<and> \<bar>v - 1 / real (length corpus)\<bar> \<le> (2 * real (length corpus) + 5) / 2 ^ 53"
proof -
  let ?N = "length corpus"
  let ?u = "1 / 2 ^ 53 :: real"
  let ?x0 = "\<lambda>p. fl (1 / real ?N)"
  let ?x1 = "relax_f64 corpus d ?x0"
  note dist = assms(1) and ne = assms(2) and dangling = assms(4) and d = assms(5,6)
  have closed: "links_closed corpus"
    using dangling by (auto simp: links_closed_def dlist_null_iff)
  have "(2::nat) ^ 40 \<le> 2 ^ 50" by simp
  with assms(3) have size: "?N \<le> 2 ^ 50" by (rule order_trans)
  have "real ?N \<le> 2 ^ 40" using assms(3) by (metis of_nat_le_iff of_nat_numeral of_nat_power)
  then have Nu: "(2 * real ?N + 8) / 2 ^ 53 \<le> 1 / 1000"
    and Nsmall: "real ?N / 2 ^ 53 \<le> 1 / 2" by simp_all
  note start = start_ranks [OF ne]
  have nonneg: "\<forall>q \<in> set (keys corpus). 0 \<le> ?x0 q" using start(1) by simp
  have S: "(\<Sum>q \<leftarrow> keys corpus. ?x0 q) \<le> 3 / 2" using start(3) Nsmall by linarith
  have zero: "keys (rank_dict_f64 corpus (\<lambda>p. 0)) = keys corpus" by simp
  define v where "v = ?x1 (fst (hd corpus))"
  have same: "?x1 p = v" for p
    by (simp add: v_def relax_f64_def shares_all_dangling [OF dangling])
  have "\<bar>?x1 p - relax corpus d ?x0 p\<bar> \<le> (2 * real ?N + 4) / 2 ^ 53" for p
    using ne size d nonneg S by (rule relax_f64_error(3))
  then have e1: "\<bar>v - relax corpus d ?x0 (fst (hd corpus))\<bar> \<le> (2 * real ?N + 4) / 2 ^ 53"
    unfolding v_def .
  have "relax corpus d ?x0 (fst (hd corpus)) - 1 / real ?N = d * (fl (1 / real ?N) - 1 / real ?N)"
    using ne by (simp add: relax_const_all_dangling [OF ne dangling] field_simps)
  then have "\<bar>relax corpus d ?x0 (fst (hd corpus)) - 1 / real ?N\<bar>
               = d * \<bar>fl (1 / real ?N) - 1 / real ?N\<bar>"
    using d(1) by (simp add: abs_mult)
  also have "\<dots> \<le> 1 * \<bar>fl (1 / real ?N) - 1 / real ?N\<bar>"
    using d(2) by (intro mult_right_mono) simp_all
  finally have e2: "\<bar>relax corpus d ?x0 (fst (hd corpus)) - 1 / real ?N\<bar> \<le> ?u"
    using start(2) by simp
  have "\<bar>v - 1 / real ?N\<bar> \<le> (2 * real ?N + 4) / 2 ^ 53 + ?u" using e1 e2 by linarith
  then have near: "\<bar>v - 1 / real ?N\<bar> \<le> (2 * real ?N + 5) / 2 ^ 53"
    by (simp add: add_divide_distrib)
  have "\<bar>v - fl (1 / real ?N)\<bar> \<le> (2 * real ?N + 5) / 2 ^ 53 + ?u" using near start(2) by linarith
  then have "\<bar>v - fl (1 / real ?N)\<bar> \<le> (2 * real ?N + 8) / 2 ^ 53 - 2 / 2 ^ 53"
    by (simp add: add_divide_distrib)
  then have "\<bar>v - fl (1 / real ?N)\<bar> \<le> 1 / 1000 - 2 / 2 ^ 53" using Nu by linarith
  then have settled: "settled_f64 corpus ?x0 ?x1"
    by (intro settled_f64_if_close) (simp add: same)
  have pass: "iterate_pass_f64 corpus (Finite d) ?N (rank_dict_f64 corpus ?x0)
                (rank_dict_f64 corpus (\<lambda>p. 0)) = Inr (rank_dict_f64 corpus ?x1)"
    using dist closed ne size d nonneg S zero by (rule iterate_pass_f64_value)
  have "\<forall>p \<in> set (keys corpus). \<bar>?x1 p - ?x0 p\<bar> \<le> 2"
  proof
    fix p assume p: "p \<in> set (keys corpus)"
    note r = rank_range [OF nonneg S p]
    note r' = relax_f64_error(1,2) [OF ne size d nonneg S, of p]
    show "\<bar>?x1 p - ?x0 p\<bar> \<le> 2" using r r' by simp
  qed
  with dist have "iterate_converged_f64 (rank_dict_f64 corpus ?x0) (rank_dict_f64 corpus ?x1)
                    = Inr (settled_f64 corpus ?x0 ?x1)"
    by (rule iterate_converged_f64_value)
  then have test: "iterate_converged_f64 (rank_dict_f64 corpus ?x0) (rank_dict_f64 corpus ?x1)
                     = Inr True"
    using settled by simp
  have loop: "iterate_loop_f64 corpus (Finite d) ?N (rank_dict_f64 corpus ?x0)
                (rank_dict_f64 corpus (\<lambda>p. 0)) = Some (Inr (rank_dict_f64 corpus ?x1))"
    using settled
    by (simp add: iterate_loop_f64_step [OF dist closed ne size d nonneg S zero])
  have run: "iterate_pagerank_f64 corpus (Finite d) = Some (Inr (rank_dict_f64 corpus ?x1))"
    using loop by (simp only: iterate_pagerank_f64_start [OF dist ne])
  have result: "rank_dict_f64 corpus ?x1 = map (\<lambda>page. (page, Finite v)) (keys corpus)"
    by (simp add: rank_dict_f64_def same)
  show ?thesis
    using pass test run near unfolding rank_dict_f64_def same by blast
qed

theorem iterate_pagerank_f64_all_dangling_witness:
  "\<exists>new_rank v.
     iterate_pass_f64 [(''1.html'', dlist_of_list []), (''2.html'', dlist_of_list []),
                       (''3.html'', dlist_of_list [])] (Finite (7656119366529843 / 2 ^ 53)) 3
       [(''1.html'', Finite (fl (1 / 3))), (''2.html'', Finite (fl (1 / 3))), (''3.html'', Finite (fl (1 / 3)))]
       [(''1.html'', Finite 0), (''2.html'', Finite 0), (''3.html'', Finite 0)] = Inr new_rank
   \<and> iterate_converged_f64
       [(''1.html'', Finite (fl (1 / 3))), (''2.html'', Finite (fl (1 / 3))), (''3.html'', Finite (fl (1 / 3)))]
       new_rank = Inr True
   \<and> iterate_pagerank_f64 [(''1.html'', dlist_of_list []), (''2.html'', dlist_of_list []),
                            (''3.html'', dlist_of_list [])] (Finite (7656119366529843 / 2 ^ 53))
       = Some (Inr new_rank)
   \<and> new_rank = [(''1.html'', Finite v), (''2.html'', Finite v), (''3.html'', Finite v)]
   \<and> \<bar>v - 1 / 3\<bar> \<le> 11 / 2 ^ 53"
  using iterate_pagerank_f64_all_dangling
    [of "[(''1.html'', dlist_of_list []), (''2.html'', dlist_of_list []), (''3.html'', dlist_of_list [])]"
        "7656119366529843 / 2 ^ 53"]
  by (simp add: keys_def dlist_null_iff numeral_3_eq_3)

text \<open>
  The rank need not be 1/k, nor the double nearest to it: for six pages without links and
  the damping factor 0.85 every page gets \<open>3002399751580331 / 2\<^sup>5\<^sup>4\<close>, which is above 1/6,
  while the double nearest to 1/6 is below it.
\<close>

theorem iterate_pagerank_f64_all_dangling_not_exact:
  "\<exists>ranks. iterate_pagerank_f64
       [(''1.html'', dlist_of_list []), (''2.html'', dlist_of_list []), (''3.html'', dlist_of_list []),
        (''4.html'', dlist_of_list []), (''5.html'', dlist_of_list []), (''6.html'', dlist_of_list [])]
       (round_to_double (85 / 100)) = Some (Inr ranks)
     \<and> dict_get ranks ''1.html'' = Inr (Finite (3002399751580331 / 2 ^ 54))
     \<and> (1 / 6 :: real) < 3002399751580331 / 2 ^ 54 \<and> fl (1 / 6) < 1 / 6"
  unfolding six_dangling_result by (simp add: dict_get_def fl_def f64_eval)

end
